theory Spec2Isabelle
  imports Main "HOL-Library.Word"
begin

section \<open>Common definitions\<close>

text \<open>
  Failures of the C++ code are values of the model: a failed \<^verbatim>\<open>assert\<close>, the
  \<^verbatim>\<open>std::out_of_range\<close> thrown by \<^verbatim>\<open>std::map::at\<close>, and \<^verbatim>\<open>front()\<close> of an empty
  queue (undefined behaviour in C++, an error here).
\<close>

datatype error = AssertionFailed | OutOfRange | EmptyQueue

section \<open>LRU-K replacer (src/buffer/lru\_k\_replacer.cpp)\<close>

text \<open>
  The header declaring the class is not part of the sources at hand. Frame identifiers and
  timestamps are modelled as unbounded integers. The constant
  \<^verbatim>\<open>std::numeric_limits<timestamp_t>::min()\<close> depends on the missing declaration of
  \<^verbatim>\<open>timestamp_t\<close> and is a parameter \<open>tmin\<close> of \<open>RecordAccess\<close>. The counter
  \<^verbatim>\<open>current_timestamp\<close> is an unbounded natural number; the evictable count
  \<^verbatim>\<open>curr_size\<close> is a 64-bit \<^verbatim>\<open>size_t\<close>, so that its decrement wraps as in C++.
  Record fields carry the names of the C++ members without the trailing underscore;
  the member \<^verbatim>\<open>k_\<close> is the field \<open>replacer_k\<close>.
\<close>

type_synonym frame_id_t = int
type_synonym timestamp_t = int

record FrameStatus =
  access_timestamps :: "timestamp_t list"
  evictable :: bool

text \<open>
  \<^verbatim>\<open>frames\<close> is a map from frame identifiers to frame records. \<^verbatim>\<open>lru_timestamps\<close> is
  a \<^verbatim>\<open>std::map\<close> whose iteration order matters (\<^verbatim>\<open>begin()\<close> is the entry with the least
  key): it is the list of its entries in ascending key order.
\<close>

record LRUKReplacer =
  replacer_size :: nat
  replacer_k :: nat
  current_timestamp :: nat
  curr_size :: "64 word"
  frames :: "frame_id_t \<rightharpoonup> FrameStatus"
  lru_timestamps :: "(timestamp_t \<times> frame_id_t) list"

text \<open>\<^verbatim>\<open>m[k] = v\<close> on an ordered map: overwrite the entry of \<open>k\<close> or insert it in key order.\<close>

fun omap_assign :: "int \<Rightarrow> 'v \<Rightarrow> (int \<times> 'v) list \<Rightarrow> (int \<times> 'v) list" where
  "omap_assign k v [] = [(k, v)]"
| "omap_assign k v ((k', v') # xs) =
     (if k < k' then (k, v) # (k', v') # xs
      else if k = k' then (k, v) # xs
      else (k', v') # omap_assign k v xs)"

text \<open>\<^verbatim>\<open>m.erase(k)\<close>: drop the entry of \<open>k\<close>, if there is one.\<close>

definition omap_erase :: "int \<Rightarrow> (int \<times> 'v) list \<Rightarrow> (int \<times> 'v) list" where
  "omap_erase k xs = filter (\<lambda>p. fst p \<noteq> k) xs"

text \<open>\<^verbatim>\<open>q.front()\<close> of a \<^verbatim>\<open>std::queue\<close>, kept as a list with the oldest element first.\<close>

definition front :: "'a list \<Rightarrow> error + 'a" where
  "front q = (case q of [] \<Rightarrow> Inl EmptyQueue | x # _ \<Rightarrow> Inr x)"

text \<open>
  Modelled from the spec: the struct \<^verbatim>\<open>FrameStatus\<close> is declared in the header, which
  is not among the sources. \<^verbatim>\<open>FrameStatus{}\<close> has an empty history and is not evictable:
  the spec has \<^verbatim>\<open>Size()\<close> count the evictable frames, and a frame becomes evictable by
  \<^verbatim>\<open>SetEvictable\<close> only.
\<close>

definition FrameStatus_new :: FrameStatus where
  "FrameStatus_new = \<lparr>access_timestamps = [], evictable = False\<rparr>"

text \<open>The constructor: no frame is tracked, the index is empty, both counters are 0.\<close>

definition LRUKReplacer_new :: "nat \<Rightarrow> nat \<Rightarrow> LRUKReplacer" where
  "LRUKReplacer_new num_frames k =
     \<lparr>replacer_size = num_frames, replacer_k = k, current_timestamp = 0, curr_size = 0,
      frames = Map.empty, lru_timestamps = []\<rparr>"

text \<open>
  \<^verbatim>\<open>RemoveInternal\<close>: an untracked frame is left alone; a tracked frame must be evictable
  (assertion), and is dropped from the index and from \<^verbatim>\<open>frames\<close>.
\<close>

definition RemoveInternal :: "frame_id_t \<Rightarrow> LRUKReplacer \<Rightarrow> error + LRUKReplacer" where
  "RemoveInternal frame_id s =
     (case frames s frame_id of
        None \<Rightarrow> Inr s
      | Some frame \<Rightarrow>
          if \<not> evictable frame then Inl AssertionFailed
          else (case front (access_timestamps frame) of
                  Inl e \<Rightarrow> Inl e
                | Inr t \<Rightarrow>
                    Inr (s\<lparr>lru_timestamps := omap_erase t (lru_timestamps s),
                           curr_size := curr_size s - 1,
                           frames := (frames s)(frame_id := None)\<rparr>)))"

definition Remove :: "frame_id_t \<Rightarrow> LRUKReplacer \<Rightarrow> error + LRUKReplacer" where
  "Remove frame_id s = RemoveInternal frame_id s"

text \<open>
  \<^verbatim>\<open>Evict\<close>: the result \<open>None\<close> stands for the return value \<^verbatim>\<open>false\<close> (the out-parameter
  is not written), \<open>Some fid\<close> for \<^verbatim>\<open>true\<close> with \<^verbatim>\<open>*frame_id = fid\<close>.
\<close>

definition Evict :: "LRUKReplacer \<Rightarrow> error + (frame_id_t option \<times> LRUKReplacer)" where
  "Evict s =
     (case lru_timestamps s of
        [] \<Rightarrow> Inr (None, s)
      | (ts, fid) # _ \<Rightarrow>
          (case RemoveInternal fid s of
             Inl e \<Rightarrow> Inl e
           | Inr s' \<Rightarrow> Inr (Some fid, s')))"

text \<open>
  \<^verbatim>\<open>RecordAccess\<close>: a frame seen for the first time gets a record whose history starts
  with the pseudo-timestamp \<open>tmin + current_timestamp\<close>; then the real timestamp is
  pushed, and when the history is longer than \<open>replacer_k\<close> its oldest entry is popped and the
  index entry of an evictable frame is moved to the new head.
\<close>

definition RecordAccess :: "timestamp_t \<Rightarrow> frame_id_t \<Rightarrow> LRUKReplacer \<Rightarrow> error + LRUKReplacer" where
  "RecordAccess tmin frame_id s =
     (if \<not> frame_id < int (replacer_size s) then Inl AssertionFailed
      else
        let frame = (case frames s frame_id of
                       None \<Rightarrow> FrameStatus_new\<lparr>access_timestamps :=
                                 access_timestamps FrameStatus_new @ [tmin + int (current_timestamp s)]\<rparr>
                     | Some fr \<Rightarrow> fr);
            ts = int (current_timestamp s);
            s1 = s\<lparr>current_timestamp := current_timestamp s + 1\<rparr>;
            q1 = access_timestamps frame @ [ts]
        in if length q1 > replacer_k s then
             let old = hd q1; q2 = tl q1 in
             if evictable frame then
               (case front q2 of
                  Inl e \<Rightarrow> Inl e
                | Inr t \<Rightarrow>
                    Inr (s1\<lparr>frames := (frames s)(frame_id \<mapsto> frame\<lparr>access_timestamps := q2\<rparr>),
                            lru_timestamps :=
                              omap_assign t frame_id (omap_erase old (lru_timestamps s))\<rparr>))
             else Inr (s1\<lparr>frames := (frames s)(frame_id \<mapsto> frame\<lparr>access_timestamps := q2\<rparr>)\<rparr>)
           else Inr (s1\<lparr>frames := (frames s)(frame_id \<mapsto> frame\<lparr>access_timestamps := q1\<rparr>)\<rparr>))"

text \<open>
  \<^verbatim>\<open>SetEvictable\<close>: \<^verbatim>\<open>frames.at\<close> throws for an untracked frame. Turning the flag on
  enters the frame in the index under the head of its history, turning it off erases
  that entry.
\<close>

definition SetEvictable :: "frame_id_t \<Rightarrow> bool \<Rightarrow> LRUKReplacer \<Rightarrow> error + LRUKReplacer" where
  "SetEvictable frame_id set_evictable s =
     (case frames s frame_id of
        None \<Rightarrow> Inl OutOfRange
      | Some frame \<Rightarrow>
          if \<not> evictable frame \<and> set_evictable then
            (case front (access_timestamps frame) of
               Inl e \<Rightarrow> Inl e
             | Inr t \<Rightarrow>
                 Inr (s\<lparr>curr_size := curr_size s + 1,
                        lru_timestamps := omap_assign t frame_id (lru_timestamps s),
                        frames := (frames s)(frame_id \<mapsto> frame\<lparr>evictable := set_evictable\<rparr>)\<rparr>))
          else if evictable frame \<and> \<not> set_evictable then
            (case front (access_timestamps frame) of
               Inl e \<Rightarrow> Inl e
             | Inr t \<Rightarrow>
                 Inr (s\<lparr>lru_timestamps := omap_erase t (lru_timestamps s),
                        curr_size := curr_size s - 1,
                        frames := (frames s)(frame_id \<mapsto> frame\<lparr>evictable := set_evictable\<rparr>)\<rparr>))
          else Inr (s\<lparr>frames := (frames s)(frame_id \<mapsto> frame\<lparr>evictable := set_evictable\<rparr>)\<rparr>))"

definition Size :: "LRUKReplacer \<Rightarrow> 64 word" where
  "Size s = curr_size s"


subsection \<open>Operation sequences and access histories\<close>

text \<open>
  The states the claims speak about are those the public operations produce from a freshly
  constructed replacer. \<open>replacer_run\<close> applies a list of operations and stops at the first
  error. Beside the replacer state it keeps, for bookkeeping only, the access history of
  every tracked frame: the timestamps of all accesses recorded for the frame since it was
  (last) entered into the replacer, oldest first. The history is what "accessed fewer than
  K times" and "first access" refer to; the code itself keeps only the bounded queue.
\<close>

datatype replacer_op =
  OpRecordAccess frame_id_t | OpSetEvictable frame_id_t bool | OpRemove frame_id_t | OpEvict

type_synonym history = "frame_id_t \<rightharpoonup> timestamp_t list"

fun replacer_step ::
  "timestamp_t \<Rightarrow> replacer_op \<Rightarrow> LRUKReplacer \<times> history \<Rightarrow> error + LRUKReplacer \<times> history" where
  "replacer_step tmin (OpRecordAccess f) (s, g) =
     (case RecordAccess tmin f s of
        Inl e \<Rightarrow> Inl e
      | Inr s' \<Rightarrow>
          Inr (s', g(f \<mapsto> (case g f of None \<Rightarrow> [] | Some h \<Rightarrow> h) @ [int (current_timestamp s)])))"
| "replacer_step tmin (OpSetEvictable f b) (s, g) =
     (case SetEvictable f b s of Inl e \<Rightarrow> Inl e | Inr s' \<Rightarrow> Inr (s', g))"
| "replacer_step tmin (OpRemove f) (s, g) =
     (case Remove f s of Inl e \<Rightarrow> Inl e | Inr s' \<Rightarrow> Inr (s', g(f := None)))"
| "replacer_step tmin OpEvict (s, g) =
     (case Evict s of
        Inl e \<Rightarrow> Inl e
      | Inr (None, s') \<Rightarrow> Inr (s', g)
      | Inr (Some f, s') \<Rightarrow> Inr (s', g(f := None)))"

fun replacer_run ::
  "timestamp_t \<Rightarrow> replacer_op list \<Rightarrow> LRUKReplacer \<times> history \<Rightarrow> error + LRUKReplacer \<times> history" where
  "replacer_run tmin [] sg = Inr sg"
| "replacer_run tmin (op # ops) sg =
     (case replacer_step tmin op sg of Inl e \<Rightarrow> Inl e | Inr sg' \<Rightarrow> replacer_run tmin ops sg')"

text \<open>
  The K-distance of a frame with history \<open>h\<close>: the timestamp of the K-th most recent
  access, or, with fewer than \<open>K\<close> accesses, the first access shifted by \<open>tmin\<close>.
\<close>

definition k_distance :: "timestamp_t \<Rightarrow> nat \<Rightarrow> timestamp_t list \<Rightarrow> timestamp_t" where
  "k_distance tmin K h = (if length h < K then tmin + hd h else h ! (length h - K))"

text \<open>The bounded queue the code keeps for a frame with history \<open>h\<close> (for \<open>K \<ge> 1\<close>).\<close>

definition history_queue :: "timestamp_t \<Rightarrow> nat \<Rightarrow> timestamp_t list \<Rightarrow> timestamp_t list" where
  "history_queue tmin K h = (if length h < K then (tmin + hd h) # h else drop (length h - K) h)"

text \<open>
  Histories are not empty, their timestamps were issued by the counter, and no timestamp
  occurs in the histories of two frames.
\<close>

definition hist_ok :: "nat \<Rightarrow> (frame_id_t \<rightharpoonup> timestamp_t list) \<Rightarrow> bool" where
  "hist_ok cur g \<longleftrightarrow>
     (\<forall>f h. g f = Some h \<longrightarrow> h \<noteq> [] \<and> (\<forall>t \<in> set h. 0 \<le> t \<and> t < int cur)) \<and>
     (\<forall>f f' h h'. f \<noteq> f' \<longrightarrow> g f = Some h \<longrightarrow> g f' = Some h' \<longrightarrow> set h \<inter> set h' = {})"

text \<open>
  The timestamps fit their type when a pseudo-timestamp \<open>tmin + t\<close> of an access \<open>t\<close>
  cannot be the real timestamp of another access: \<^verbatim>\<open>timestamp_t\<close> is unsigned
  (\<open>tmin = 0\<close>, the pseudo-timestamp is the access itself), or it is signed and the
  counter has not passed \<open>- tmin\<close>, so that every pseudo-timestamp is negative.
\<close>

definition timestamps_fit :: "timestamp_t \<Rightarrow> nat \<Rightarrow> bool" where
  "timestamps_fit tmin cur \<longleftrightarrow> tmin = 0 \<or> tmin + int cur \<le> 0"

text \<open>
  The representation invariant: the tracked frames are those with a history, every queue
  is the bounded view of its history, and the index holds exactly the evictable frames,
  each under its K-distance, in ascending key order.
\<close>

definition replacer_inv :: "timestamp_t \<Rightarrow> LRUKReplacer \<Rightarrow> (frame_id_t \<rightharpoonup> timestamp_t list) \<Rightarrow> bool" where
  "replacer_inv tmin s g \<longleftrightarrow>
     hist_ok (current_timestamp s) g \<and>
     (\<forall>f. (frames s f = None) = (g f = None)) \<and>
     (\<forall>f fr h. frames s f = Some fr \<longrightarrow> g f = Some h \<longrightarrow>
        access_timestamps fr = history_queue tmin (replacer_k s) h) \<and>
     sorted_wrt (<) (map fst (lru_timestamps s)) \<and>
     (\<forall>t f. (t, f) \<in> set (lru_timestamps s) \<longleftrightarrow>
        (\<exists>h fr. g f = Some h \<and> frames s f = Some fr \<and> evictable fr \<and>
                t = k_distance tmin (replacer_k s) h))"

text \<open>
  A concrete run used to instantiate the theorems: \<open>K = 2\<close>, frame 1 is accessed twice,
  frame 2 once, both are evictable; \<open>tmin\<close> is the least 64-bit signed integer.
\<close>

definition scenario_tmin :: timestamp_t where
  "scenario_tmin = - 9223372036854775808"

definition scenario_ops :: "replacer_op list" where
  "scenario_ops = [OpRecordAccess 1, OpRecordAccess 2, OpRecordAccess 1,
                   OpSetEvictable 1 True, OpSetEvictable 2 True]"

definition scenario_state :: LRUKReplacer where
  "scenario_state =
     \<lparr>replacer_size = 7, replacer_k = 2, current_timestamp = 3, curr_size = 2,
      frames = [1 \<mapsto> \<lparr>access_timestamps = [0, 2], evictable = True\<rparr>,
                2 \<mapsto> \<lparr>access_timestamps = [- 9223372036854775807, 1], evictable = True\<rparr>],
      lru_timestamps = [(- 9223372036854775807, 2), (0, 1)]\<rparr>"

definition scenario_history :: history where
  "scenario_history = [1 \<mapsto> [0, 2], 2 \<mapsto> [1]]"


section \<open>Extendible hash table (src/container/hash/extendible\_hash\_table.cpp)\<close>

text \<open>
  The class template is modelled for arbitrary key and value types. \<^verbatim>\<open>std::hash<K>\<close> is a
  parameter \<open>h\<close> of every function that hashes, with hash values as natural numbers.
  The C++ types \<^verbatim>\<open>int\<close> and \<^verbatim>\<open>size_t\<close> of depths, masks and indices are modelled as
  unbounded natural numbers, so \<^verbatim>\<open>1 << d\<close> is \<open>2 ^ d\<close> at every depth; the masks are
  applied with the bitwise \<open>AND\<close> of the source. The model and the machine arithmetic
  agree as long as the depths stay below the width of \<^verbatim>\<open>int\<close>, which a directory of
  \<open>2 ^ global_depth\<close> slots in memory ensures.

  Buckets are shared between directory slots through \<^verbatim>\<open>std::shared_ptr\<close>. The model has
  an explicit store \<open>heap\<close> of buckets; a pointer is an index into the store, the
  directory \<open>dir\<close> is a list of pointers, and \<^verbatim>\<open>std::make_shared\<close> appends a bucket to the
  store. Record fields carry the names of the C++ members without the trailing underscore
  (\<^verbatim>\<open>size_\<close> is \<open>array_size\<close>, \<^verbatim>\<open>list_\<close> is \<open>items\<close>). The member functions
  of \<^verbatim>\<open>Bucket\<close> are \<open>Bucket_Find\<close>, \<open>Bucket_Remove\<close> and \<open>Bucket_Insert\<close>;
  \<^verbatim>\<open>ExtendibleHashTable::Remove\<close> is \<open>Remove_key\<close>, the name \<open>Remove\<close> being that of the
  replacer's operation. \<open>Find\<close> returns an option: \<open>Some v\<close> stands for \<^verbatim>\<open>true\<close> with the
  value \<open>v\<close> written to the out-parameter, \<open>None\<close> for \<^verbatim>\<open>false\<close>.
\<close>

unbundle bit_operations_syntax

record ('k, 'v) Bucket =
  array_size :: nat
  depth :: nat
  items :: "('k \<times> 'v) list"

record ('k, 'v) ExtendibleHashTable =
  global_depth :: nat
  bucket_size :: nat
  num_buckets :: int
  dir :: "nat list"
  heap :: "('k, 'v) Bucket list"

subsection \<open>Bucket\<close>

text \<open>
  Modelled from the spec: the default of the constructor's \<^verbatim>\<open>depth\<close> argument is given in
  the header, which is not among the sources; the constructor of the table passes no depth
  for the initial bucket, and the spec says that the depth "grows from 0".
\<close>

definition default_depth :: nat where
  "default_depth = 0"

definition Bucket_new :: "nat \<Rightarrow> nat \<Rightarrow> ('k, 'v) Bucket" where
  "Bucket_new n d = \<lparr>array_size = n, depth = d, items = []\<rparr>"

text \<open>
  Modelled from the spec: \<^verbatim>\<open>IsFull\<close> is defined inline in the missing header; a bucket is
  "bounded in cardinality by \<^verbatim>\<open>bucket_size\<close>", so it is full when it holds that many pairs.
\<close>

definition IsFull :: "('k, 'v) Bucket \<Rightarrow> bool" where
  "IsFull b \<longleftrightarrow> length (items b) = array_size b"

text \<open>\<^verbatim>\<open>KeyEquals(key)\<close>, the predicate given to \<^verbatim>\<open>std::find_if\<close>.\<close>

definition KeyEquals :: "'k \<Rightarrow> 'k \<times> 'v \<Rightarrow> bool" where
  "KeyEquals key p \<longleftrightarrow> fst p = key"

text \<open>\<^verbatim>\<open>Bucket::Find\<close>: the value of the first pair with the key (\<open>None\<close> is \<^verbatim>\<open>false\<close>).\<close>

definition Bucket_Find :: "'k \<Rightarrow> ('k, 'v) Bucket \<Rightarrow> 'v option" where
  "Bucket_Find key b =
     (case find (KeyEquals key) (items b) of None \<Rightarrow> None | Some p \<Rightarrow> Some (snd p))"

text \<open>\<^verbatim>\<open>list_.erase(iter)\<close> at the first pair with the key.\<close>

fun erase_first :: "'k \<Rightarrow> ('k \<times> 'v) list \<Rightarrow> ('k \<times> 'v) list" where
  "erase_first key [] = []"
| "erase_first key (p # ps) = (if KeyEquals key p then ps else p # erase_first key ps)"

definition Bucket_Remove :: "'k \<Rightarrow> ('k, 'v) Bucket \<Rightarrow> bool \<times> ('k, 'v) Bucket" where
  "Bucket_Remove key b =
     (case find (KeyEquals key) (items b) of
        None \<Rightarrow> (False, b)
      | Some p \<Rightarrow> (True, b\<lparr>items := erase_first key (items b)\<rparr>))"

text \<open>\<^verbatim>\<open>iter->second = value\<close> at the first pair with the key.\<close>

fun assign_first :: "'k \<Rightarrow> 'v \<Rightarrow> ('k \<times> 'v) list \<Rightarrow> ('k \<times> 'v) list" where
  "assign_first key v [] = []"
| "assign_first key v (p # ps) =
     (if KeyEquals key p then (fst p, v) # ps else p # assign_first key v ps)"

text \<open>
  \<^verbatim>\<open>Bucket::Insert\<close>: overwrite the value of a key that is present; otherwise add the pair
  at the end (\<^verbatim>\<open>emplace\<close> at \<^verbatim>\<open>end()\<close>) unless the bucket is full, when the result is
  \<^verbatim>\<open>false\<close> and the bucket is unchanged.
\<close>

definition Bucket_Insert :: "'k \<Rightarrow> 'v \<Rightarrow> ('k, 'v) Bucket \<Rightarrow> bool \<times> ('k, 'v) Bucket" where
  "Bucket_Insert key v b =
     (case find (KeyEquals key) (items b) of
        Some p \<Rightarrow> (True, b\<lparr>items := assign_first key v (items b)\<rparr>)
      | None \<Rightarrow>
          if \<not> IsFull b then (True, b\<lparr>items := items b @ [(key, v)]\<rparr>)
          else (False, b))"

subsection \<open>Table\<close>

text \<open>The constructor: depth 0, one directory slot, one empty bucket, \<^verbatim>\<open>num_buckets_\<close> 1.\<close>

definition ExtendibleHashTable_new :: "nat \<Rightarrow> error + ('k, 'v) ExtendibleHashTable" where
  "ExtendibleHashTable_new n =
     (if n = 0 then Inl AssertionFailed
      else Inr \<lparr>global_depth = 0, bucket_size = n, num_buckets = 1, dir = [0],
                heap = [Bucket_new n default_depth]\<rparr>)"

definition IndexOf :: "('k \<Rightarrow> nat) \<Rightarrow> ('k, 'v) ExtendibleHashTable \<Rightarrow> 'k \<Rightarrow> nat" where
  "IndexOf h t key = (let mask = 2 ^ global_depth t - 1 in h key AND mask)"

definition GetGlobalDepth :: "('k, 'v) ExtendibleHashTable \<Rightarrow> nat" where
  "GetGlobalDepth t = global_depth t"

definition GetLocalDepth :: "('k, 'v) ExtendibleHashTable \<Rightarrow> nat \<Rightarrow> nat" where
  "GetLocalDepth t dir_index = depth (heap t ! (dir t ! dir_index))"

definition GetNumBuckets :: "('k, 'v) ExtendibleHashTable \<Rightarrow> int" where
  "GetNumBuckets t = num_buckets t"

definition Find :: "('k \<Rightarrow> nat) \<Rightarrow> 'k \<Rightarrow> ('k, 'v) ExtendibleHashTable \<Rightarrow> 'v option" where
  "Find h key t = (let bucket = dir t ! IndexOf h t key in Bucket_Find key (heap t ! bucket))"

definition Remove_key ::
  "('k \<Rightarrow> nat) \<Rightarrow> 'k \<Rightarrow> ('k, 'v) ExtendibleHashTable \<Rightarrow> bool \<times> ('k, 'v) ExtendibleHashTable" where
  "Remove_key h key t =
     (let bucket = dir t ! IndexOf h t key;
          (r, b') = Bucket_Remove key (heap t ! bucket)
      in (r, t\<lparr>heap := (heap t)[bucket := b']\<rparr>))"

text \<open>
  The last loop of \<^verbatim>\<open>RedistributeBucket\<close>:
  \<^verbatim>\<open>for (i = start; i < dir_.size(); i += 2 * high_bit) dir_[i] = new_bucket\<close>,
  with \<open>high_bit = 2 ^ d\<close>.
\<close>

function redirect :: "nat \<Rightarrow> nat \<Rightarrow> nat \<Rightarrow> nat list \<Rightarrow> nat list" where
  "redirect i d new_bucket ds =
     (if i < length ds then redirect (i + 2 * 2 ^ d) d new_bucket (ds[i := new_bucket]) else ds)"
  by pat_completeness auto
termination
proof (relation "measure (\<lambda>(i, d, new_bucket, ds). length ds - i)")
  show "wf (measure (\<lambda>(i, d, new_bucket, ds). length ds - i))" by simp
next
  fix i d :: nat and new_bucket :: nat and ds :: "nat list"
  assume "i < length ds"
  moreover have "(0::nat) < 2 * 2 ^ d" by simp
  ultimately have "length ds - (i + 2 * 2 ^ d) < length ds - i" by linarith
  then show "((i + 2 * 2 ^ d, d, new_bucket, ds[i := new_bucket]), (i, d, new_bucket, ds))
      \<in> measure (\<lambda>(i, d, new_bucket, ds). length ds - i)" by simp
qed

declare redirect.simps [simp del]

text \<open>
  \<^verbatim>\<open>RedistributeBucket\<close> splits the bucket at store address \<open>bucket\<close>. The pairs whose
  hash has the bit \<open>high_bit\<close> set move to a new bucket, in their order; the directory is
  doubled (the new half a copy of the old) when the bucket's depth is the global depth;
  the depth of the old bucket is incremented; every second slot of the old bucket, from
  \<open>index_bits + high_bit\<close> on, is pointed to the new bucket.
\<close>

definition RedistributeBucket ::
  "('k \<Rightarrow> nat) \<Rightarrow> nat \<Rightarrow> ('k, 'v) ExtendibleHashTable \<Rightarrow> error + ('k, 'v) ExtendibleHashTable" where
  "RedistributeBucket h bucket t =
     (let b = heap t ! bucket in
      if length (items b) = 0 then Inl AssertionFailed
      else
        let d = depth b;
            new_bucket = length (heap t);
            index_bits = h (fst (hd (items b))) AND (2 ^ d - 1);
            high_bit = 2 ^ d;
            new_list = filter (\<lambda>p. h (fst p) AND high_bit \<noteq> 0) (items b);
            old_list = filter (\<lambda>p. \<not> h (fst p) AND high_bit \<noteq> 0) (items b);
            doubled = (d = global_depth t);
            dir1 = (if doubled then dir t @ dir t else dir t);
            heap1 = (heap t)[bucket := b\<lparr>items := old_list, depth := d + 1\<rparr>]
                      @ [\<lparr>array_size = bucket_size t, depth = d + 1, items = new_list\<rparr>]
        in Inr (t\<lparr>global_depth := (if doubled then global_depth t + 1 else global_depth t),
                  dir := redirect (index_bits + high_bit) d new_bucket dir1,
                  heap := heap1\<rparr>))"

text \<open>
  \<^verbatim>\<open>Insert\<close>: the \<^verbatim>\<open>while (true)\<close> loop that splits the target bucket until
  \<^verbatim>\<open>Bucket::Insert\<close> succeeds. The loop need not terminate, so the result is an option:
  \<open>None\<close> when the loop runs forever.
\<close>

partial_function (option) Insert ::
  "('k \<Rightarrow> nat) \<Rightarrow> 'k \<Rightarrow> 'v \<Rightarrow> ('k, 'v) ExtendibleHashTable
     \<Rightarrow> (error + ('k, 'v) ExtendibleHashTable) option" where
  "Insert h key v t =
     (let bucket = dir t ! IndexOf h t key;
          (ok, b') = Bucket_Insert key v (heap t ! bucket)
      in if ok then Some (Inr (t\<lparr>heap := (heap t)[bucket := b']\<rparr>))
         else (case RedistributeBucket h bucket t of
                 Inl e \<Rightarrow> Some (Inl e)
               | Inr t' \<Rightarrow> Insert h key v t'))"

subsection \<open>Reachable tables and what they store\<close>

text \<open>The tables produced by the constructor and the public operations that change a table.\<close>

inductive reachable :: "('k \<Rightarrow> nat) \<Rightarrow> ('k, 'v) ExtendibleHashTable \<Rightarrow> bool"
  for h :: "'k \<Rightarrow> nat" where
  reachable_new: "ExtendibleHashTable_new n = Inr t \<Longrightarrow> reachable h t"
| reachable_Insert: "reachable h t \<Longrightarrow> Insert h key v t = Some (Inr t') \<Longrightarrow> reachable h t'"
| reachable_Remove: "reachable h t \<Longrightarrow> Remove_key h key t = (r, t') \<Longrightarrow> reachable h t'"

text \<open>
  The number of pairs stored in the buckets the directory refers to, the number of those
  with a given key, the keys that are stored, and the number of directory slots that
  refer to a bucket.
\<close>

definition num_items :: "('k, 'v) ExtendibleHashTable \<Rightarrow> nat" where
  "num_items t = (\<Sum>a \<in> set (dir t). length (items (heap t ! a)))"

definition num_bindings :: "('k, 'v) ExtendibleHashTable \<Rightarrow> 'k \<Rightarrow> nat" where
  "num_bindings t key = (\<Sum>a \<in> set (dir t). length (filter (KeyEquals key) (items (heap t ! a))))"

definition table_keys :: "('k, 'v) ExtendibleHashTable \<Rightarrow> 'k set" where
  "table_keys t = (\<Union>a \<in> set (dir t). fst ` set (items (heap t ! a)))"

definition num_slots :: "('k, 'v) ExtendibleHashTable \<Rightarrow> nat \<Rightarrow> nat" where
  "num_slots t a = length (filter (\<lambda>x. x = a) (dir t))"

text \<open>
  The invariant of the directory. For every bucket of the store there is a slot prefix
  \<open>c\<close> of \<open>depth\<close> bits: the slots that refer to the bucket are those whose low \<open>depth\<close>
  bits are \<open>c\<close>, and the hash of every key in the bucket has the low bits \<open>c\<close>. Keys in a
  bucket are distinct and there are at most \<open>bucket_size\<close> of them.
\<close>

definition bucket_ok :: "('k \<Rightarrow> nat) \<Rightarrow> ('k, 'v) ExtendibleHashTable \<Rightarrow> nat \<Rightarrow> bool" where
  "bucket_ok h t a \<longleftrightarrow>
     (let b = heap t ! a; m = 2 ^ depth b in
      array_size b = bucket_size t \<and> length (items b) \<le> bucket_size t \<and>
      distinct (map fst (items b)) \<and> depth b \<le> global_depth t \<and>
      (\<exists>c<m. (\<forall>j<length (dir t). (dir t ! j = a) = (j mod m = c)) \<and>
              (\<forall>p\<in>set (items b). h (fst p) mod m = c)))"

text \<open>
  Local depths are at least 1 as soon as there has been a split; before the first split
  there is one bucket, of depth 0.
\<close>

definition depth_inv :: "('k, 'v) ExtendibleHashTable \<Rightarrow> bool" where
  "depth_inv t \<longleftrightarrow>
     (global_depth t = 0 \<and> length (heap t) = 1) \<or> (\<forall>a<length (heap t). 1 \<le> depth (heap t ! a))"

definition table_inv :: "('k \<Rightarrow> nat) \<Rightarrow> ('k, 'v) ExtendibleHashTable \<Rightarrow> bool" where
  "table_inv h t \<longleftrightarrow>
     0 < bucket_size t \<and> length (dir t) = 2 ^ global_depth t \<and>
     (\<forall>j<length (dir t). dir t ! j < length (heap t)) \<and>
     (\<forall>a<length (heap t). bucket_ok h t a)"


subsection \<open>A small table\<close>

text \<open>
  Tables with buckets of size 1 over natural-number keys hashed by the identity, used to
  instantiate the theorems: the new table, the table after inserting key 0, the table after
  the split that inserting key 1 then needs, and the table after that insertion.
\<close>

definition ex_new :: "(nat, nat) ExtendibleHashTable" where
  "ex_new = \<lparr>global_depth = 0, bucket_size = 1, num_buckets = 1, dir = [0],
             heap = [\<lparr>array_size = 1, depth = 0, items = []\<rparr>]\<rparr>"

definition ex_one :: "(nat, nat) ExtendibleHashTable" where
  "ex_one = \<lparr>global_depth = 0, bucket_size = 1, num_buckets = 1, dir = [0],
             heap = [\<lparr>array_size = 1, depth = 0, items = [(0, 10)]\<rparr>]\<rparr>"

definition ex_split :: "(nat, nat) ExtendibleHashTable" where
  "ex_split = \<lparr>global_depth = 1, bucket_size = 1, num_buckets = 1, dir = [0, 1],
               heap = [\<lparr>array_size = 1, depth = 1, items = [(0, 10)]\<rparr>,
                       \<lparr>array_size = 1, depth = 1, items = []\<rparr>]\<rparr>"

definition ex_two :: "(nat, nat) ExtendibleHashTable" where
  "ex_two = \<lparr>global_depth = 1, bucket_size = 1, num_buckets = 1, dir = [0, 1],
             heap = [\<lparr>array_size = 1, depth = 1, items = [(0, 10)]\<rparr>,
                     \<lparr>array_size = 1, depth = 1, items = [(1, 11)]\<rparr>]\<rparr>"

section \<open>Properties of the LRU-K replacer\<close>

text \<open>
  Claim C10. \<open>Remove\<close> of a frame that is not tracked returns normally and leaves the
  whole replacer state as it was (tracked frames, index and evictable count); the
  assertion fails exactly when the frame is tracked and not evictable.
\<close>

theorem Remove_untracked_is_noop:
  "(frames s f = None \<longrightarrow> Remove f s = Inr s) \<and>
   (Remove f s = Inl AssertionFailed \<longleftrightarrow> (\<exists>fr. frames s f = Some fr \<and> \<not> evictable fr))"
  by (auto simp: Remove_def RemoveInternal_def front_def split: option.splits list.splits)

theorem Remove_untracked_is_noop_witness:
  "frames (LRUKReplacer_new 3 2) 1 = None \<and>
   Remove 1 (LRUKReplacer_new 3 2) = Inr (LRUKReplacer_new 3 2)"
  using Remove_untracked_is_noop [of "LRUKReplacer_new 3 2" 1]
  by (simp add: LRUKReplacer_new_def)

lemma set_omap_erase: "set (omap_erase k xs) = {p \<in> set xs. fst p \<noteq> k}"
  by (auto simp: omap_erase_def)

lemma sorted_omap_erase:
  "sorted_wrt (<) (map fst xs) \<Longrightarrow> sorted_wrt (<) (map fst (omap_erase k xs))"
  unfolding omap_erase_def by (induction xs) auto

lemma set_omap_assign:
  "sorted_wrt (<) (map fst xs) \<Longrightarrow> set (omap_assign k v xs) = insert (k, v) {p \<in> set xs. fst p \<noteq> k}"
  by (induction xs) (fastforce split: if_splits)+

lemma sorted_omap_assign:
  "sorted_wrt (<) (map fst xs) \<Longrightarrow> sorted_wrt (<) (map fst (omap_assign k v xs))"
  by (induction xs) (fastforce simp: set_omap_assign split: if_splits)+

lemma hd_history_queue:
  "1 \<le> K \<Longrightarrow> h \<noteq> [] \<Longrightarrow> hd (history_queue tmin K h) = k_distance tmin K h"
  by (auto simp: history_queue_def k_distance_def hd_drop_conv_nth)

lemma history_queue_nonempty: "1 \<le> K \<Longrightarrow> h \<noteq> [] \<Longrightarrow> history_queue tmin K h \<noteq> []"
  by (auto simp: history_queue_def)

lemma history_queue_push:
  assumes "1 \<le> K" "h \<noteq> []"
  shows "(if length (history_queue tmin K h @ [t]) > K then tl (history_queue tmin K h @ [t])
          else history_queue tmin K h @ [t])
         = history_queue tmin K (h @ [t])"
  using assms
  by (auto simp: history_queue_def Let_def tl_drop hd_append Suc_diff_le drop_Suc[symmetric])

lemma history_queue_first:
  assumes "1 \<le> K"
  shows "(if length [tmin + t, t] > K then tl [tmin + t, t] else [tmin + t, t])
         = history_queue tmin K [t]"
  using assms by (auto simp: history_queue_def Let_def)

lemma k_distance_cases:
  assumes "h \<noteq> []" "1 \<le> K"
  shows "(length h < K \<and> k_distance tmin K h = tmin + hd h \<and> hd h \<in> set h) \<or>
         (K \<le> length h \<and> k_distance tmin K h \<in> set h)"
  using assms by (auto simp: k_distance_def)

lemma k_distance_inj:
  assumes ok: "hist_ok cur g" and fit: "timestamps_fit tmin cur" and K: "1 \<le> K"
    and f: "g f = Some h" and f': "g f' = Some h'"
    and eq: "k_distance tmin K h = k_distance tmin K h'"
  shows "f = f'"
proof (rule ccontr)
  assume ne: "f \<noteq> f'"
  from ok f f' have nonempty: "h \<noteq> []" "h' \<noteq> []"
    and rng: "\<forall>t \<in> set h. 0 \<le> t \<and> t < int cur" "\<forall>t \<in> set h'. 0 \<le> t \<and> t < int cur"
    by (auto simp: hist_ok_def)
  from ok f f' ne have disj: "set h \<inter> set h' = {}"
    unfolding hist_ok_def by blast
  from k_distance_cases [OF nonempty(1) K, of tmin] k_distance_cases [OF nonempty(2) K, of tmin]
  show False
  proof (elim disjE conjE)
    assume "k_distance tmin K h = tmin + hd h" "hd h \<in> set h"
      "k_distance tmin K h' = tmin + hd h'" "hd h' \<in> set h'"
    with eq disj show False by auto
  next
    assume a: "k_distance tmin K h = tmin + hd h" "hd h \<in> set h" "k_distance tmin K h' \<in> set h'"
    from fit show False unfolding timestamps_fit_def
    proof
      assume "tmin = 0"
      with a eq disj show False by auto
    next
      assume "tmin + int cur \<le> 0"
      with a eq rng show False by force
    qed
  next
    assume a: "k_distance tmin K h \<in> set h" "k_distance tmin K h' = tmin + hd h'" "hd h' \<in> set h'"
    from fit show False unfolding timestamps_fit_def
    proof
      assume "tmin = 0"
      with a eq disj show False by auto
    next
      assume "tmin + int cur \<le> 0"
      with a eq rng show False by force
    qed
  next
    assume "k_distance tmin K h \<in> set h" "k_distance tmin K h' \<in> set h'"
    with eq disj show False by auto
  qed
qed

lemma timestamps_fit_mono:
  "cur \<le> cur' \<Longrightarrow> timestamps_fit tmin cur' \<Longrightarrow> timestamps_fit tmin cur"
  by (auto simp: timestamps_fit_def)

lemma hist_ok_access:
  assumes ok: "hist_ok cur g"
  shows "hist_ok (Suc cur) (g(f \<mapsto> (case g f of None \<Rightarrow> [] | Some h \<Rightarrow> h) @ [int cur]))"
proof -
  define h0 where "h0 = (case g f of None \<Rightarrow> [] | Some h \<Rightarrow> h)"
  have old: "\<And>f1 h1. g f1 = Some h1 \<Longrightarrow> h1 \<noteq> [] \<and> (\<forall>t \<in> set h1. 0 \<le> t \<and> t < int cur)"
    using ok by (simp add: hist_ok_def)
  have h0_rng: "\<forall>t \<in> set h0. 0 \<le> t \<and> t < int cur"
    using old [of f] by (cases "g f") (simp_all add: h0_def)
  have h0_disj: "set h0 \<inter> set h1 = {}" if "g f1 = Some h1" "f1 \<noteq> f" for f1 h1
  proof (cases "g f")
    case None
    then show ?thesis by (simp add: h0_def)
  next
    case (Some h)
    with ok that have "set h \<inter> set h1 = {}"
      unfolding hist_ok_def by blast
    with Some show ?thesis by (simp add: h0_def)
  qed
  have new_disj: "set (h0 @ [int cur]) \<inter> set h1 = {}" if "g f1 = Some h1" "f1 \<noteq> f" for f1 h1
    using h0_disj [OF that] old [OF that(1)] by auto
  have old_disj: "set h1 \<inter> set h2 = {}" if "g f1 = Some h1" "g f2 = Some h2" "f1 \<noteq> f2" for f1 f2 h1 h2
    using ok that unfolding hist_ok_def by blast
  have A: "h1 \<noteq> [] \<and> (\<forall>t \<in> set h1. 0 \<le> t \<and> t < int (Suc cur))"
    if a: "(g(f \<mapsto> h0 @ [int cur])) f1 = Some h1" for f1 h1
  proof (cases "f1 = f")
    case True
    with a have "h1 = h0 @ [int cur]" by simp
    with h0_rng show ?thesis by auto
  next
    case False
    with a have "g f1 = Some h1" by simp
    from old [OF this] show ?thesis by auto
  qed
  have B: "set h1 \<inter> set h2 = {}"
    if ne: "f1 \<noteq> f2"
      and a1: "(g(f \<mapsto> h0 @ [int cur])) f1 = Some h1"
      and a2: "(g(f \<mapsto> h0 @ [int cur])) f2 = Some h2" for f1 f2 h1 h2
  proof (cases "f1 = f")
    case True
    with ne a1 a2 have "h1 = h0 @ [int cur]" "g f2 = Some h2" "f2 \<noteq> f" by auto
    with new_disj show ?thesis by blast
  next
    case f1: False
    show ?thesis
    proof (cases "f2 = f")
      case True
      with ne a1 a2 have "h2 = h0 @ [int cur]" "g f1 = Some h1" "f1 \<noteq> f" by auto
      with new_disj [of f1 h1] show ?thesis by blast
    next
      case False
      with f1 a1 a2 have "g f1 = Some h1" "g f2 = Some h2" by auto
      with old_disj ne show ?thesis by blast
    qed
  qed
  show ?thesis
    unfolding hist_ok_def h0_def [symmetric] using A B by blast
qed

lemma hist_ok_drop:
  assumes "hist_ok cur g"
  shows "hist_ok cur (g(f := None))"
proof -
  have A: "h1 \<noteq> [] \<and> (\<forall>t\<in>set h1. 0 \<le> t \<and> t < int cur)"
    if "(g(f := None)) f1 = Some h1" for f1 h1
  proof -
    from that have "g f1 = Some h1" by (simp split: if_splits)
    with assms show ?thesis by (simp add: hist_ok_def)
  qed
  have B: "set h1 \<inter> set h2 = {}"
    if "f1 \<noteq> f2" "(g(f := None)) f1 = Some h1" "(g(f := None)) f2 = Some h2" for f1 f2 h1 h2
  proof -
    from that have "f1 \<noteq> f2" "g f1 = Some h1" "g f2 = Some h2" by (simp_all split: if_splits)
    with assms show ?thesis unfolding hist_ok_def by blast
  qed
  show ?thesis
    unfolding hist_ok_def using A B by blast
qed


lemma RecordAccess_shape:
  assumes ra: "RecordAccess tmin f s = Inr s'"
  defines "q0 \<equiv> (case frames s f of None \<Rightarrow> [tmin + int (current_timestamp s)]
                   | Some fr \<Rightarrow> access_timestamps fr)"
    and "ev \<equiv> (case frames s f of None \<Rightarrow> False | Some fr \<Rightarrow> evictable fr)"
  defines "q1 \<equiv> q0 @ [int (current_timestamp s)]"
  shows "current_timestamp s' = Suc (current_timestamp s)"
    and "replacer_k s' = replacer_k s"
    and "frames s' = (frames s)(f \<mapsto> \<lparr>access_timestamps = (if length q1 > replacer_k s then tl q1 else q1),
                                       evictable = ev\<rparr>)"
    and "lru_timestamps s' =
          (if length q1 > replacer_k s \<and> ev
           then omap_assign (hd (tl q1)) f (omap_erase (hd q1) (lru_timestamps s))
           else lru_timestamps s)"
  using ra unfolding q1_def q0_def ev_def
  by (auto simp: RecordAccess_def FrameStatus_new_def Let_def front_def
      split: if_splits option.splits list.splits sum.splits)


lemma history_queue_len_gt:
  assumes "1 \<le> K" "h \<noteq> []"
  shows "length (history_queue tmin K h @ [t]) > K \<longleftrightarrow> K \<le> Suc (length h)"
  using assms by (auto simp: history_queue_def)

lemma k_distance_no_pop:
  assumes "h \<noteq> []" "\<not> K \<le> Suc (length h)"
  shows "k_distance tmin K (h @ [t]) = k_distance tmin K h"
  using assms by (auto simp: k_distance_def)

lemma RecordAccess_inv:
  assumes inv: "replacer_inv tmin s g" and K: "1 \<le> replacer_k s"
    and fit: "timestamps_fit tmin (Suc (current_timestamp s))"
    and ra: "RecordAccess tmin f s = Inr s'"
  shows "replacer_inv tmin s'
           (g(f \<mapsto> (case g f of None \<Rightarrow> [] | Some h \<Rightarrow> h) @ [int (current_timestamp s)]))"
proof -
  define cur where "cur = current_timestamp s"
  define KK where "KK = replacer_k s"
  define h0 where "h0 = (case g f of None \<Rightarrow> [] | Some h \<Rightarrow> h)"
  define g' where "g' = g(f \<mapsto> h0 @ [int cur])"
  define q0 where "q0 = (case frames s f of None \<Rightarrow> [tmin + int cur] | Some fr \<Rightarrow> access_timestamps fr)"
  define ev where "ev = (case frames s f of None \<Rightarrow> False | Some fr \<Rightarrow> evictable fr)"
  define q1 where "q1 = q0 @ [int cur]"
  have shape1: "current_timestamp s' = Suc cur" and shape2: "replacer_k s' = KK"
    unfolding cur_def KK_def by (rule RecordAccess_shape [OF ra])+
  have shape3: "frames s' = (frames s)(f \<mapsto> \<lparr>access_timestamps = (if length q1 > KK then tl q1 else q1),
                                                 evictable = ev\<rparr>)"
    unfolding q1_def q0_def ev_def cur_def KK_def by (rule RecordAccess_shape [OF ra])
  have shape4: "lru_timestamps s' =
          (if length q1 > KK \<and> ev
           then omap_assign (hd (tl q1)) f (omap_erase (hd q1) (lru_timestamps s))
           else lru_timestamps s)"
    unfolding q1_def q0_def ev_def cur_def KK_def by (rule RecordAccess_shape [OF ra])
  from inv have ok: "hist_ok cur g"
    and dom: "\<And>x. (frames s x = None) = (g x = None)"
    and queue: "\<And>x fr h. frames s x = Some fr \<Longrightarrow> g x = Some h \<Longrightarrow>
                  access_timestamps fr = history_queue tmin KK h"
    and sorted: "sorted_wrt (<) (map fst (lru_timestamps s))"
    and lru: "\<And>t x. (t, x) \<in> set (lru_timestamps s) \<longleftrightarrow>
               (\<exists>h fr. g x = Some h \<and> frames s x = Some fr \<and> evictable fr \<and> t = k_distance tmin KK h)"
    unfolding replacer_inv_def cur_def KK_def by blast+
  have K': "1 \<le> KK" using K by (simp add: KK_def)
  have ok': "hist_ok (Suc cur) g'"
    unfolding g'_def h0_def by (rule hist_ok_access [OF ok])
  have neg': "timestamps_fit tmin (Suc cur)" using fit by (simp add: cur_def)
  have neg0: "timestamps_fit tmin cur" by (rule timestamps_fit_mono [OF _ neg']) simp
  have g'f: "g' f = Some (h0 @ [int cur])" by (simp add: g'_def)
  have g'x: "g' x = g x" if "x \<noteq> f" for x using that by (simp add: g'_def)
  \<comment> \<open>the history queue of the accessed frame\<close>
  have qnew: "(if length q1 > KK then tl q1 else q1) = history_queue tmin KK (h0 @ [int cur])"
  proof (cases "frames s f")
    case None
    then have "g f = None" by (simp add: dom)
    then have "h0 = []" by (simp add: h0_def)
    have "q1 = [tmin + int cur, int cur]" using None by (simp add: q1_def q0_def)
    then show ?thesis
      unfolding \<open>h0 = []\<close> append_Nil by (simp only: history_queue_first [OF K'])
  next
    case (Some fr)
    then obtain h where h: "g f = Some h" using dom [of f] by (cases "g f") auto
    with ok have hne: "h \<noteq> []" by (auto simp: hist_ok_def)
    have h0: "h0 = h" using h by (simp add: h0_def)
    have q0: "q0 = history_queue tmin KK h" using Some queue [OF Some h] by (simp add: q0_def)
    show ?thesis
      unfolding q1_def q0 h0 by (rule history_queue_push [OF K' hne])
  qed
  have frames': "frames s' = (frames s)(f \<mapsto> \<lparr>access_timestamps = history_queue tmin KK (h0 @ [int cur]),
                                                  evictable = ev\<rparr>)"
    using shape3 qnew by simp
  \<comment> \<open>the index\<close>
  have lru_f: "(t, f) \<in> set (lru_timestamps s') \<longleftrightarrow> (ev \<and> t = k_distance tmin KK (h0 @ [int cur]))" for t
  proof (cases "frames s f")
    case None
    then have gf: "g f = None" by (simp add: dom)
    from None have "\<not> ev" by (simp add: ev_def)
    with shape4 lru [of t f] gf show ?thesis by simp
  next
    case (Some fr)
    then obtain h where h: "g f = Some h" using dom [of f] by (cases "g f") auto
    with ok have hne: "h \<noteq> []" by (auto simp: hist_ok_def)
    have h0: "h0 = h" using h by (simp add: h0_def)
    have q0: "q0 = history_queue tmin KK h" using Some queue [OF Some h] by (simp add: q0_def)
    have evf: "ev = evictable fr" using Some by (simp add: ev_def)
    have old: "(t', f) \<in> set (lru_timestamps s) \<longleftrightarrow> (ev \<and> t' = k_distance tmin KK h)" for t'
      using lru [of t' f] Some h evf by auto
    have len: "length q1 > KK \<longleftrightarrow> KK \<le> Suc (length h)"
      unfolding q1_def q0 by (rule history_queue_len_gt [OF K' hne])
    show ?thesis
    proof (cases "length q1 > KK \<and> ev")
      case True
      have hdq1: "hd q1 = k_distance tmin KK h"
        using hd_history_queue [OF K' hne, of tmin] history_queue_nonempty [OF K' hne, of tmin]
        by (simp add: q1_def q0)
      have "tl q1 = history_queue tmin KK (h @ [int cur])"
        using qnew True h0 by simp
      then have hdq2: "hd (tl q1) = k_distance tmin KK (h @ [int cur])"
        using hd_history_queue [OF K', of "h @ [int cur]" tmin] by simp
      have "lru_timestamps s' = omap_assign (hd (tl q1)) f (omap_erase (hd q1) (lru_timestamps s))"
        using shape4 True by simp
      then show ?thesis
        using True old hdq1 hdq2 h0
        by (auto simp: set_omap_assign [OF sorted_omap_erase [OF sorted]] set_omap_erase)
    next
      case False
      then have same: "lru_timestamps s' = lru_timestamps s" using shape4 by auto
      show ?thesis
      proof (cases ev)
        case True
        with False len have "\<not> KK \<le> Suc (length h)" by simp
        from k_distance_no_pop [OF hne this, of tmin "int cur"] same old True h0
        show ?thesis by simp
      next
        case False
        with same old show ?thesis by simp
      qed
    qed
  qed
  have lru_x: "(t, x) \<in> set (lru_timestamps s') \<longleftrightarrow> (t, x) \<in> set (lru_timestamps s)"
    if x: "x \<noteq> f" for t x
  proof (cases "length q1 > KK \<and> ev")
    case False
    then show ?thesis using shape4 by auto
  next
    case True
    then have evt: ev and pop: "length q1 > KK" by auto
    from evt obtain fr where fr: "frames s f = Some fr"
      by (cases "frames s f") (auto simp: ev_def)
    then obtain h where h: "g f = Some h" using dom [of f] by (cases "g f") auto
    with ok have hne: "h \<noteq> []" by (auto simp: hist_ok_def)
    have h0: "h0 = h" using h by (simp add: h0_def)
    have q0: "q0 = history_queue tmin KK h" using fr queue [OF fr h] by (simp add: q0_def)
    have hdq1: "hd q1 = k_distance tmin KK h"
      using hd_history_queue [OF K' hne, of tmin] history_queue_nonempty [OF K' hne, of tmin]
      by (simp add: q1_def q0)
    have "tl q1 = history_queue tmin KK (h @ [int cur])"
      using qnew pop h0 by simp
    then have hdq2: "hd (tl q1) = k_distance tmin KK (h @ [int cur])"
      using hd_history_queue [OF K', of "h @ [int cur]" tmin] by simp
    have eq: "lru_timestamps s' = omap_assign (hd (tl q1)) f (omap_erase (hd q1) (lru_timestamps s))"
      using shape4 True by simp
    have keys: "t \<noteq> hd q1 \<and> t \<noteq> hd (tl q1)" if mem: "(t, x) \<in> set (lru_timestamps s)"
    proof -
      from mem lru [of t x] obtain hx where hx: "g x = Some hx" "t = k_distance tmin KK hx"
        by auto
      have "t \<noteq> k_distance tmin KK h"
        using k_distance_inj [OF ok neg0 K' hx(1) h] hx(2) x by auto
      moreover have "t \<noteq> k_distance tmin KK (h @ [int cur])"
        using k_distance_inj [OF ok' neg' K', of x hx f "h @ [int cur]"] hx x g'x [OF x] g'f h0
        by auto
      ultimately show ?thesis using hdq1 hdq2 by simp
    qed
    show ?thesis
      using keys x
      by (auto simp: eq set_omap_assign [OF sorted_omap_erase [OF sorted]] set_omap_erase)
  qed
  have sorted': "sorted_wrt (<) (map fst (lru_timestamps s'))"
    using shape4 sorted sorted_omap_assign [OF sorted_omap_erase [OF sorted]]
    by (auto split: if_splits)
  have dom': "(frames s' x = None) = (g' x = None)" for x
    using dom [of x] by (simp add: frames' g'_def)
  have queue': "access_timestamps fr = history_queue tmin KK h"
    if "frames s' x = Some fr" "g' x = Some h" for x fr h
    using that queue [of x fr h] by (cases "x = f") (auto simp: frames' g'_def)
  have lru': "(t, x) \<in> set (lru_timestamps s') \<longleftrightarrow>
               (\<exists>h fr. g' x = Some h \<and> frames s' x = Some fr \<and> evictable fr \<and> t = k_distance tmin KK h)"
    for t x
  proof (cases "x = f")
    case True
    then show ?thesis using lru_f [of t] by (auto simp: frames' g'_def)
  next
    case False
    then show ?thesis using lru_x [OF False, of t] lru [of t x] by (simp add: frames' g'_def)
  qed
  show ?thesis
    unfolding replacer_inv_def shape1 shape2
    using ok' dom' queue' sorted' lru'
    unfolding g'_def h0_def cur_def by blast
qed


lemma SetEvictable_shape:
  assumes se: "SetEvictable f b s = Inr s'"
  shows "frames s f \<noteq> None"
    and "current_timestamp s' = current_timestamp s"
    and "replacer_k s' = replacer_k s"
    and "\<And>fr. frames s f = Some fr \<Longrightarrow> frames s' = (frames s)(f \<mapsto> fr\<lparr>evictable := b\<rparr>)"
    and "\<And>fr. frames s f = Some fr \<Longrightarrow> access_timestamps fr \<noteq> [] \<Longrightarrow> lru_timestamps s' =
          (if \<not> evictable fr \<and> b then omap_assign (hd (access_timestamps fr)) f (lru_timestamps s)
           else if evictable fr \<and> \<not> b then omap_erase (hd (access_timestamps fr)) (lru_timestamps s)
           else lru_timestamps s)"
  using se
  by (auto simp: SetEvictable_def front_def split: if_splits option.splits list.splits sum.splits)

lemma SetEvictable_inv:
  assumes inv: "replacer_inv tmin s g" and K: "1 \<le> replacer_k s"
    and fit: "timestamps_fit tmin (current_timestamp s)"
    and se: "SetEvictable f b s = Inr s'"
  shows "replacer_inv tmin s' g"
proof -
  define cur where "cur = current_timestamp s"
  define KK where "KK = replacer_k s"
  from inv have ok: "hist_ok cur g"
    and dom: "\<And>x. (frames s x = None) = (g x = None)"
    and queue: "\<And>x fr h. frames s x = Some fr \<Longrightarrow> g x = Some h \<Longrightarrow>
                  access_timestamps fr = history_queue tmin KK h"
    and sorted: "sorted_wrt (<) (map fst (lru_timestamps s))"
    and lru: "\<And>t x. (t, x) \<in> set (lru_timestamps s) \<longleftrightarrow>
               (\<exists>h fr. g x = Some h \<and> frames s x = Some fr \<and> evictable fr \<and> t = k_distance tmin KK h)"
    unfolding replacer_inv_def cur_def KK_def by blast+
  have K': "1 \<le> KK" using K by (simp add: KK_def)
  have neg0: "timestamps_fit tmin cur" using fit by (simp add: cur_def)
  from SetEvictable_shape(1) [OF se] obtain fr where fr: "frames s f = Some fr"
    by (cases "frames s f") auto
  note shape1 = SetEvictable_shape(2) [OF se]
  note shape2 = SetEvictable_shape(3) [OF se]
  note frames' = SetEvictable_shape(4) [OF se fr]
  note shape4 = SetEvictable_shape(5) [OF se fr]
  from fr obtain h where h: "g f = Some h" using dom [of f] by (cases "g f") auto
  with ok have hne: "h \<noteq> []" by (auto simp: hist_ok_def)
  have q: "access_timestamps fr = history_queue tmin KK h" by (rule queue [OF fr h])
  have hdq: "hd (access_timestamps fr) = k_distance tmin KK h"
    unfolding q by (rule hd_history_queue [OF K' hne])
  have qne: "access_timestamps fr \<noteq> []"
    unfolding q by (rule history_queue_nonempty [OF K' hne])
  note lru_eq = shape4 [OF qne, unfolded hdq]
  have old: "(t, f) \<in> set (lru_timestamps s) \<longleftrightarrow> (evictable fr \<and> t = k_distance tmin KK h)" for t
    using lru [of t f] fr h by auto
  have lru_f: "(t, f) \<in> set (lru_timestamps s') \<longleftrightarrow> (b \<and> t = k_distance tmin KK h)" for t
    using old [of t] old [of "k_distance tmin KK h"]
    by (auto simp: lru_eq set_omap_assign [OF sorted] set_omap_erase)
  have keys: "t \<noteq> k_distance tmin KK h" if mem: "(t, x) \<in> set (lru_timestamps s)" and x: "x \<noteq> f" for t x
  proof -
    from mem lru [of t x] obtain hx where hx: "g x = Some hx" "t = k_distance tmin KK hx"
      by auto
    show ?thesis
      using k_distance_inj [OF ok neg0 K' hx(1) h] hx(2) x by auto
  qed
  have lru_x: "(t, x) \<in> set (lru_timestamps s') \<longleftrightarrow> (t, x) \<in> set (lru_timestamps s)"
    if x: "x \<noteq> f" for t x
    using keys [OF _ x, of t] x
    by (auto simp: lru_eq set_omap_assign [OF sorted] set_omap_erase)
  have sorted': "sorted_wrt (<) (map fst (lru_timestamps s'))"
    using sorted sorted_omap_assign [OF sorted] sorted_omap_erase [OF sorted]
    by (auto simp: lru_eq)
  have dom': "(frames s' x = None) = (g x = None)" for x
    using dom [of x] fr h by (simp add: frames')
  have queue': "access_timestamps fr' = history_queue tmin KK h'"
    if "frames s' x = Some fr'" "g x = Some h'" for x fr' h'
    using that queue [of x fr' h'] q h by (cases "x = f") (auto simp: frames')
  have lru': "(t, x) \<in> set (lru_timestamps s') \<longleftrightarrow>
               (\<exists>h fr. g x = Some h \<and> frames s' x = Some fr \<and> evictable fr \<and> t = k_distance tmin KK h)"
    for t x
  proof (cases "x = f")
    case True
    then show ?thesis using lru_f [of t] h by (auto simp: frames')
  next
    case False
    then show ?thesis using lru_x [OF False, of t] lru [of t x] by (simp add: frames')
  qed
  show ?thesis
    unfolding replacer_inv_def shape1 shape2
    using ok dom' queue' sorted' lru' unfolding cur_def KK_def by blast
qed

lemma RemoveInternal_shape:
  assumes "RemoveInternal f s = Inr s'"
  shows "current_timestamp s' = current_timestamp s"
    and "replacer_k s' = replacer_k s"
    and "frames s' = (frames s)(f := None)"
    and "lru_timestamps s' =
          (case frames s f of None \<Rightarrow> lru_timestamps s
           | Some fr \<Rightarrow> omap_erase (hd (access_timestamps fr)) (lru_timestamps s))"
    and "\<And>fr. frames s f = Some fr \<Longrightarrow> evictable fr"
  using assms
  by (auto simp: RemoveInternal_def front_def split: if_splits option.splits list.splits sum.splits)

lemma RemoveInternal_inv:
  assumes inv: "replacer_inv tmin s g" and K: "1 \<le> replacer_k s"
    and fit: "timestamps_fit tmin (current_timestamp s)"
    and rm: "RemoveInternal f s = Inr s'"
  shows "replacer_inv tmin s' (g(f := None))"
proof -
  define cur where "cur = current_timestamp s"
  define KK where "KK = replacer_k s"
  from inv have ok: "hist_ok cur g"
    and dom: "\<And>x. (frames s x = None) = (g x = None)"
    and queue: "\<And>x fr h. frames s x = Some fr \<Longrightarrow> g x = Some h \<Longrightarrow>
                  access_timestamps fr = history_queue tmin KK h"
    and sorted: "sorted_wrt (<) (map fst (lru_timestamps s))"
    and lru: "\<And>t x. (t, x) \<in> set (lru_timestamps s) \<longleftrightarrow>
               (\<exists>h fr. g x = Some h \<and> frames s x = Some fr \<and> evictable fr \<and> t = k_distance tmin KK h)"
    unfolding replacer_inv_def cur_def KK_def by blast+
  have K': "1 \<le> KK" using K by (simp add: KK_def)
  have neg0: "timestamps_fit tmin cur" using fit by (simp add: cur_def)
  have shape1: "current_timestamp s' = cur" and shape2: "replacer_k s' = KK"
    unfolding cur_def KK_def by (rule RemoveInternal_shape [OF rm])+
  note frames' = RemoveInternal_shape(3) [OF rm]
  note shape4 = RemoveInternal_shape(4) [OF rm]
  have ok': "hist_ok cur (g(f := None))" by (rule hist_ok_drop [OF ok])
  have lru_f: "(t, f) \<notin> set (lru_timestamps s')" for t
  proof (cases "frames s f")
    case None
    with lru [of t f] shape4 show ?thesis by simp
  next
    case (Some fr)
    then obtain h where h: "g f = Some h" using dom [of f] by (cases "g f") auto
    with ok have hne: "h \<noteq> []" by (auto simp: hist_ok_def)
    have hdq: "hd (access_timestamps fr) = k_distance tmin KK h"
      unfolding queue [OF Some h] by (rule hd_history_queue [OF K' hne])
    show ?thesis
      using lru [of t f] Some h hdq shape4 by (auto simp: set_omap_erase)
  qed
  have lru_x: "(t, x) \<in> set (lru_timestamps s') \<longleftrightarrow> (t, x) \<in> set (lru_timestamps s)"
    if x: "x \<noteq> f" for t x
  proof (cases "frames s f")
    case None
    with shape4 show ?thesis by simp
  next
    case (Some fr)
    then obtain h where h: "g f = Some h" using dom [of f] by (cases "g f") auto
    with ok have hne: "h \<noteq> []" by (auto simp: hist_ok_def)
    have hdq: "hd (access_timestamps fr) = k_distance tmin KK h"
      unfolding queue [OF Some h] by (rule hd_history_queue [OF K' hne])
    have "t \<noteq> k_distance tmin KK h" if mem: "(t, x) \<in> set (lru_timestamps s)"
    proof -
      from mem lru [of t x] obtain hx where hx: "g x = Some hx" "t = k_distance tmin KK hx"
        by auto
      show ?thesis
        using k_distance_inj [OF ok neg0 K' hx(1) h] hx(2) x by auto
    qed
    then show ?thesis
      using Some hdq shape4 by (auto simp: set_omap_erase)
  qed
  have sorted': "sorted_wrt (<) (map fst (lru_timestamps s'))"
    using sorted sorted_omap_erase [OF sorted] shape4
    by (auto split: option.splits)
  have dom': "(frames s' x = None) = ((g(f := None)) x = None)" for x
    using dom [of x] by (simp add: frames')
  have queue': "access_timestamps fr' = history_queue tmin KK h'"
    if "frames s' x = Some fr'" "(g(f := None)) x = Some h'" for x fr' h'
    using that queue [of x fr' h'] by (cases "x = f") (auto simp: frames')
  have lru': "(t, x) \<in> set (lru_timestamps s') \<longleftrightarrow>
               (\<exists>h fr. (g(f := None)) x = Some h \<and> frames s' x = Some fr \<and> evictable fr \<and>
                        t = k_distance tmin KK h)"
    for t x
  proof (cases "x = f")
    case True
    then show ?thesis using lru_f [of t] by (auto simp: frames')
  next
    case False
    then show ?thesis using lru_x [OF False, of t] lru [of t x] by (simp add: frames')
  qed
  show ?thesis
    unfolding replacer_inv_def shape1 shape2
    using ok' dom' queue' sorted' lru' by blast
qed


lemma Evict_shape:
  assumes "Evict s = Inr (r, s')"
  shows "(lru_timestamps s = [] \<and> r = None \<and> s' = s) \<or>
         (\<exists>t v rest. lru_timestamps s = (t, v) # rest \<and> r = Some v \<and> RemoveInternal v s = Inr s')"
  using assms by (auto simp: Evict_def split: list.splits sum.splits)

lemma replacer_inv_new: "replacer_inv tmin (LRUKReplacer_new n k) Map.empty"
  by (simp add: replacer_inv_def LRUKReplacer_new_def hist_ok_def)

lemma replacer_step_inv:
  assumes inv: "replacer_inv tmin s g" and K: "1 \<le> replacer_k s"
    and step: "replacer_step tmin op (s, g) = Inr (s', g')"
    and fit: "timestamps_fit tmin (current_timestamp s')"
  shows "replacer_inv tmin s' g' \<and> replacer_k s' = replacer_k s \<and>
         current_timestamp s \<le> current_timestamp s'"
proof (cases op)
  case (OpRecordAccess f)
  with step have ra: "RecordAccess tmin f s = Inr s'"
    and g': "g' = g(f \<mapsto> (case g f of None \<Rightarrow> [] | Some h \<Rightarrow> h) @ [int (current_timestamp s)])"
    by (auto split: sum.splits)
  note sh = RecordAccess_shape(1,2) [OF ra]
  from fit sh have "timestamps_fit tmin (Suc (current_timestamp s))" by simp
  from RecordAccess_inv [OF inv K this ra] sh show ?thesis by (simp add: g')
next
  case (OpSetEvictable f b)
  with step have se: "SetEvictable f b s = Inr s'" and g': "g' = g"
    by (auto split: sum.splits)
  note sh = SetEvictable_shape(2,3) [OF se]
  from fit sh have "timestamps_fit tmin (current_timestamp s)" by simp
  from SetEvictable_inv [OF inv K this se] sh show ?thesis by (simp add: g')
next
  case (OpRemove f)
  with step have rm: "RemoveInternal f s = Inr s'" and g': "g' = g(f := None)"
    by (auto simp: Remove_def split: sum.splits)
  note sh = RemoveInternal_shape(1,2) [OF rm]
  from fit sh have "timestamps_fit tmin (current_timestamp s)" by simp
  from RemoveInternal_inv [OF inv K this rm] sh show ?thesis by (simp add: g')
next
  case OpEvict
  with step obtain r where ev: "Evict s = Inr (r, s')"
    and g': "g' = (case r of None \<Rightarrow> g | Some f \<Rightarrow> g(f := None))"
    by (auto split: sum.splits option.splits)
  from Evict_shape [OF ev] show ?thesis
  proof (elim disjE conjE exE)
    assume "r = None" "s' = s"
    with inv g' show ?thesis by simp
  next
    fix t v rest
    assume r: "r = Some v" and rm: "RemoveInternal v s = Inr s'"
    note sh = RemoveInternal_shape(1,2) [OF rm]
    from fit sh have "timestamps_fit tmin (current_timestamp s)" by simp
    from RemoveInternal_inv [OF inv K this rm] sh show ?thesis by (simp add: g' r)
  qed
qed

lemma replacer_run_snoc:
  "replacer_run tmin (ops @ [op]) sg =
     (case replacer_run tmin ops sg of Inl e \<Rightarrow> Inl e | Inr sg' \<Rightarrow> replacer_step tmin op sg')"
  by (induction ops arbitrary: sg) (auto split: sum.splits)

lemma replacer_run_inv:
  assumes "replacer_run tmin ops (LRUKReplacer_new n k, Map.empty) = Inr (s, g)"
    and "1 \<le> k" and "timestamps_fit tmin (current_timestamp s)"
  shows "replacer_inv tmin s g \<and> replacer_k s = k"
  using assms
proof (induction ops arbitrary: s g rule: rev_induct)
  case Nil
  then show ?case by (auto simp: replacer_inv_new) (simp add: LRUKReplacer_new_def)
next
  case (snoc op ops)
  from snoc.prems(1) obtain s0 g0
    where run0: "replacer_run tmin ops (LRUKReplacer_new n k, Map.empty) = Inr (s0, g0)"
      and step: "replacer_step tmin op (s0, g0) = Inr (s, g)"
    by (auto simp: replacer_run_snoc split: sum.splits)
  have mono: "current_timestamp s0 \<le> current_timestamp s \<and> replacer_k s = replacer_k s0"
  proof (cases op)
    case (OpRecordAccess f)
    with step have "RecordAccess tmin f s0 = Inr s" by (auto split: sum.splits)
    from RecordAccess_shape(1,2) [OF this] show ?thesis by simp
  next
    case (OpSetEvictable f b)
    with step have "SetEvictable f b s0 = Inr s" by (auto split: sum.splits)
    from SetEvictable_shape(2,3) [OF this] show ?thesis by simp
  next
    case (OpRemove f)
    with step have "RemoveInternal f s0 = Inr s" by (auto simp: Remove_def split: sum.splits)
    from RemoveInternal_shape(1,2) [OF this] show ?thesis by simp
  next
    case OpEvict
    with step obtain r where "Evict s0 = Inr (r, s)" by (auto split: sum.splits option.splits)
    from Evict_shape [OF this] show ?thesis
      by (auto dest: RemoveInternal_shape(1,2))
  qed
  with snoc.prems(3) have neg0: "timestamps_fit tmin (current_timestamp s0)"
    using timestamps_fit_mono by blast
  from snoc.IH [OF run0 snoc.prems(2) neg0] have inv0: "replacer_inv tmin s0 g0" and k0: "replacer_k s0 = k"
    by simp_all
  from replacer_step_inv [OF inv0 _ step snoc.prems(3)] k0 snoc.prems(2)
  show ?case by simp
qed


lemma Evict_none:
  assumes inv: "replacer_inv tmin s g"
    and none: "\<forall>f fr. frames s f = Some fr \<longrightarrow> \<not> evictable fr"
  shows "Evict s = Inr (None, s)"
proof (cases "lru_timestamps s")
  case Nil
  then show ?thesis by (simp add: Evict_def)
next
  case (Cons p rest)
  obtain t v where p: "p = (t, v)" by (cases p)
  from inv have "(t, v) \<in> set (lru_timestamps s) \<longleftrightarrow>
      (\<exists>h fr. g v = Some h \<and> frames s v = Some fr \<and> evictable fr \<and> t = k_distance tmin (replacer_k s) h)"
    unfolding replacer_inv_def by blast
  with Cons p none show ?thesis by auto
qed

lemma Evict_some:
  assumes inv: "replacer_inv tmin s g" and K: "1 \<le> replacer_k s"
    and some: "frames s f = Some fr" "evictable fr"
  shows "\<exists>v frv hv.
           Evict s = Inr (Some v, s\<lparr>lru_timestamps := omap_erase (hd (access_timestamps frv)) (lru_timestamps s),
                                     curr_size := curr_size s - 1,
                                     frames := (frames s)(v := None)\<rparr>) \<and>
           frames s v = Some frv \<and> evictable frv \<and> g v = Some hv \<and>
           hd (access_timestamps frv) = k_distance tmin (replacer_k s) hv \<and>
           (\<forall>t. (t, v) \<notin> set (omap_erase (hd (access_timestamps frv)) (lru_timestamps s))) \<and>
           (\<forall>f' fr'. frames s f' = Some fr' \<and> evictable fr' \<longrightarrow>
              (\<exists>h'. g f' = Some h' \<and>
                 k_distance tmin (replacer_k s) hv \<le> k_distance tmin (replacer_k s) h'))"
proof -
  define KK where "KK = replacer_k s"
  from inv have ok: "hist_ok (current_timestamp s) g"
    and dom: "\<And>x. (frames s x = None) = (g x = None)"
    and queue: "\<And>x fr h. frames s x = Some fr \<Longrightarrow> g x = Some h \<Longrightarrow>
                  access_timestamps fr = history_queue tmin KK h"
    and sorted: "sorted_wrt (<) (map fst (lru_timestamps s))"
    and lru: "\<And>t x. (t, x) \<in> set (lru_timestamps s) \<longleftrightarrow>
               (\<exists>h fr. g x = Some h \<and> frames s x = Some fr \<and> evictable fr \<and> t = k_distance tmin KK h)"
    unfolding replacer_inv_def KK_def by blast+
  have K': "1 \<le> KK" using K by (simp add: KK_def)
  have hist: "\<exists>h'. g f' = Some h' \<and> (k_distance tmin KK h', f') \<in> set (lru_timestamps s)"
    if "frames s f' = Some fr'" "evictable fr'" for f' fr'
  proof -
    from that(1) obtain h' where "g f' = Some h'" using dom [of f'] by (cases "g f'") auto
    with that lru [of "k_distance tmin KK h'" f'] show ?thesis by auto
  qed
  from hist [OF some] obtain p rest where Cons: "lru_timestamps s = p # rest"
    by (cases "lru_timestamps s") auto
  obtain t v where p: "p = (t, v)" by (cases p)
  from lru [of t v] Cons p obtain hv frv where v: "g v = Some hv" "frames s v = Some frv" "evictable frv"
    and t: "t = k_distance tmin KK hv"
    by auto
  from ok v(1) have hne: "hv \<noteq> []" by (auto simp: hist_ok_def)
  have q: "access_timestamps frv = history_queue tmin KK hv" by (rule queue [OF v(2) v(1)])
  have hdq: "hd (access_timestamps frv) = k_distance tmin KK hv"
    unfolding q by (rule hd_history_queue [OF K' hne])
  have qne: "access_timestamps frv \<noteq> []"
    unfolding q by (rule history_queue_nonempty [OF K' hne])
  have ev: "Evict s = Inr (Some v, s\<lparr>lru_timestamps := omap_erase (hd (access_timestamps frv)) (lru_timestamps s),
                                     curr_size := curr_size s - 1,
                                     frames := (frames s)(v := None)\<rparr>)"
    using Cons p v qne
    by (auto simp: Evict_def RemoveInternal_def front_def split: list.splits)
  have least: "\<exists>h'. g f' = Some h' \<and> k_distance tmin KK hv \<le> k_distance tmin KK h'"
    if "frames s f' = Some fr'" "evictable fr'" for f' fr'
  proof -
    from hist [OF that] obtain h' where h': "g f' = Some h'"
      and mem: "(k_distance tmin KK h', f') \<in> set (lru_timestamps s)" by blast
    from sorted Cons p have "\<forall>x \<in> set rest. t < fst x" by simp
    with mem Cons p t have "k_distance tmin KK hv \<le> k_distance tmin KK h'" by auto
    with h' show ?thesis by blast
  qed
  have gone: "(t', v) \<notin> set (omap_erase (hd (access_timestamps frv)) (lru_timestamps s))" for t'
    using lru [of t' v] v hdq by (auto simp: set_omap_erase)
  show ?thesis
    using ev v hdq least gone unfolding KK_def by blast
qed


lemma scenario_run:
  "replacer_run scenario_tmin scenario_ops (LRUKReplacer_new 7 2, Map.empty)
     = Inr (scenario_state, scenario_history)"
  by (auto simp: scenario_tmin_def scenario_ops_def scenario_state_def scenario_history_def
      LRUKReplacer_new_def RecordAccess_def FrameStatus_new_def SetEvictable_def front_def
      omap_erase_def fun_eq_iff)

text \<open>
  Claim C1. In every state reached by the public operations (with \<open>K \<ge> 1\<close> and the
  timestamps fitting their type, \<open>timestamps_fit\<close>): when some tracked
  frame is evictable, \<open>Evict\<close> returns true with an evictable frame whose K-distance is
  least among the evictable frames, and that frame is gone from \<open>frames\<close> and from the
  index, the evictable count going down by one; \<open>Evict\<close> returns false exactly when no
  tracked frame is evictable, and then the state is unchanged.
\<close>

theorem Evict_smallest_k_distance:
  assumes run: "replacer_run tmin ops (LRUKReplacer_new n k, Map.empty) = Inr (s, g)"
    and K: "1 \<le> k" and neg: "timestamps_fit tmin (current_timestamp s)"
  shows "((\<exists>f fr. frames s f = Some fr \<and> evictable fr) \<longrightarrow>
          (\<exists>v s' frv hv.
             Evict s = Inr (Some v, s') \<and> frames s v = Some frv \<and> evictable frv \<and> g v = Some hv \<and>
             (\<forall>f' fr'. frames s f' = Some fr' \<and> evictable fr' \<longrightarrow>
                (\<exists>h'. g f' = Some h' \<and> k_distance tmin k hv \<le> k_distance tmin k h')) \<and>
             frames s' = (frames s)(v := None) \<and> v \<notin> snd ` set (lru_timestamps s') \<and>
             curr_size s' = curr_size s - 1)) \<and>
         ((\<exists>s'. Evict s = Inr (None, s')) \<longleftrightarrow> (\<forall>f fr. frames s f = Some fr \<longrightarrow> \<not> evictable fr)) \<and>
         (\<forall>s'. Evict s = Inr (None, s') \<longrightarrow> s' = s)"
proof -
  from replacer_run_inv [OF run K neg] have inv: "replacer_inv tmin s g" and k: "replacer_k s = k"
    by simp_all
  have K': "1 \<le> replacer_k s" using K k by simp
  have A: "\<exists>v s' frv hv.
             Evict s = Inr (Some v, s') \<and> frames s v = Some frv \<and> evictable frv \<and> g v = Some hv \<and>
             (\<forall>f' fr'. frames s f' = Some fr' \<and> evictable fr' \<longrightarrow>
                (\<exists>h'. g f' = Some h' \<and> k_distance tmin k hv \<le> k_distance tmin k h')) \<and>
             frames s' = (frames s)(v := None) \<and> v \<notin> snd ` set (lru_timestamps s') \<and>
             curr_size s' = curr_size s - 1"
    if "frames s f = Some fr" "evictable fr" for f fr
  proof -
    from Evict_some [OF inv K' that] obtain v frv hv where
      ev: "Evict s = Inr (Some v, s\<lparr>lru_timestamps := omap_erase (hd (access_timestamps frv)) (lru_timestamps s),
                                     curr_size := curr_size s - 1,
                                     frames := (frames s)(v := None)\<rparr>)"
      and v: "frames s v = Some frv" "evictable frv" "g v = Some hv"
      and gone: "\<forall>t. (t, v) \<notin> set (omap_erase (hd (access_timestamps frv)) (lru_timestamps s))"
      and least: "\<forall>f' fr'. frames s f' = Some fr' \<and> evictable fr' \<longrightarrow>
              (\<exists>h'. g f' = Some h' \<and>
                 k_distance tmin (replacer_k s) hv \<le> k_distance tmin (replacer_k s) h')"
      by blast
    from gone have "v \<notin> snd ` set (omap_erase (hd (access_timestamps frv)) (lru_timestamps s))"
      by force
    with ev v least show ?thesis
      unfolding k by (intro exI conjI) (assumption | simp)+
  qed
  have B: "Evict s = Inr (None, s)" if "\<forall>f fr. frames s f = Some fr \<longrightarrow> \<not> evictable fr"
    by (rule Evict_none [OF inv that])
  have C: "s' = s" if "Evict s = Inr (None, s')" for s'
    using Evict_shape [OF that] by auto
  have D: "\<forall>f fr. frames s f = Some fr \<longrightarrow> \<not> evictable fr" if "Evict s = Inr (None, s')" for s'
  proof (intro allI impI notI)
    fix f fr assume "frames s f = Some fr" "evictable fr"
    from A [OF this] that show False by auto
  qed
  from A B C D show ?thesis by blast
qed

theorem Evict_smallest_k_distance_witness:
  "replacer_run scenario_tmin scenario_ops (LRUKReplacer_new 7 2, Map.empty)
     = Inr (scenario_state, scenario_history) \<and>
   (1::nat) \<le> 2 \<and> timestamps_fit scenario_tmin (current_timestamp scenario_state) \<and>
   (\<exists>f fr. frames scenario_state f = Some fr \<and> evictable fr) \<and>
   (\<exists>s'. Evict scenario_state = Inr (Some 2, s') \<and> frames s' = (frames scenario_state)(2 := None))"
proof -
  have K: "(1::nat) \<le> 2" by simp
  have neg: "timestamps_fit scenario_tmin (current_timestamp scenario_state)"
    by (simp add: timestamps_fit_def scenario_tmin_def scenario_state_def)
  have ex: "\<exists>f fr. frames scenario_state f = Some fr \<and> evictable fr"
    by (rule exI [of _ 2]) (simp add: scenario_state_def)
  have two: "\<exists>s'. Evict scenario_state = Inr (Some 2, s')"
    by (simp add: Evict_def RemoveInternal_def front_def scenario_state_def)
  from Evict_smallest_k_distance [OF scenario_run K neg] ex
  obtain v s' where "Evict scenario_state = Inr (Some v, s')"
    and "frames s' = (frames scenario_state)(v := None)"
    by blast
  with two have "\<exists>s'. Evict scenario_state = Inr (Some 2, s') \<and>
      frames s' = (frames scenario_state)(2 := None)" by auto
  with scenario_run K neg ex show ?thesis by blast
qed

text \<open>
  Claim C3. In every state reached by the public operations, with \<open>K \<ge> 1\<close>, a signed
  timestamp type and the counter still in the range where
  \<open>tmin + current_timestamp \<le> 0\<close>: whenever an evictable frame \<open>f\<close> has fewer than \<open>K\<close>
  recorded accesses, the frame \<open>Evict\<close> selects also has fewer than \<open>K\<close> accesses (no
  frame with \<open>K\<close> or more accesses is evicted while \<open>f\<close> is evictable), and its first
  access is not later than that of \<open>f\<close>.
\<close>

theorem Evict_prefers_fewer_than_k_accesses:
  assumes run: "replacer_run tmin ops (LRUKReplacer_new n k, Map.empty) = Inr (s, g)"
    and K: "1 \<le> k" and neg: "tmin + int (current_timestamp s) \<le> 0"
  shows "\<forall>f fr h. frames s f = Some fr \<and> evictable fr \<and> g f = Some h \<and> length h < k \<longrightarrow>
           (\<exists>v s' hv. Evict s = Inr (Some v, s') \<and> g v = Some hv \<and> length hv < k \<and> hd hv \<le> hd h)"
proof (intro allI impI, elim conjE)
  fix f fr h
  assume f: "frames s f = Some fr" "evictable fr" "g f = Some h" and short: "length h < k"
  from neg have fit: "timestamps_fit tmin (current_timestamp s)" by (simp add: timestamps_fit_def)
  from replacer_run_inv [OF run K fit] have inv: "replacer_inv tmin s g" and k: "replacer_k s = k"
    by simp_all
  have K': "1 \<le> replacer_k s" using K k by simp
  from inv have ok: "hist_ok (current_timestamp s) g"
    unfolding replacer_inv_def by blast
  from Evict_some [OF inv K' f(1,2)] obtain v s' hv where
    ev: "Evict s = Inr (Some v, s')" and hv: "g v = Some hv"
    and least: "\<forall>f' fr'. frames s f' = Some fr' \<and> evictable fr' \<longrightarrow>
              (\<exists>h'. g f' = Some h' \<and> k_distance tmin k hv \<le> k_distance tmin k h')"
    unfolding k by blast
  from least f have le: "k_distance tmin k hv \<le> k_distance tmin k h" by auto
  from ok f(3) have hne: "h \<noteq> []" and hrng: "\<forall>t \<in> set h. 0 \<le> t \<and> t < int (current_timestamp s)"
    by (auto simp: hist_ok_def)
  from ok hv have hvne: "hv \<noteq> []" and hvrng: "\<forall>t \<in> set hv. 0 \<le> t \<and> t < int (current_timestamp s)"
    by (auto simp: hist_ok_def)
  from hne hrng have "hd h < int (current_timestamp s)" by simp
  with short neg have kd_h: "k_distance tmin k h = tmin + hd h" "tmin + hd h < 0"
    by (simp_all add: k_distance_def)
  from k_distance_cases [OF hvne K, of tmin] have "length hv < k \<and> hd hv \<le> hd h"
  proof (elim disjE conjE)
    assume "length hv < k" "k_distance tmin k hv = tmin + hd hv"
    with le kd_h show ?thesis by simp
  next
    assume "k_distance tmin k hv \<in> set hv"
    with hvrng have "0 \<le> k_distance tmin k hv" by blast
    with le kd_h show ?thesis by simp
  qed
  with ev hv show "\<exists>v s' hv. Evict s = Inr (Some v, s') \<and> g v = Some hv \<and> length hv < k \<and> hd hv \<le> hd h"
    by blast
qed

theorem Evict_prefers_fewer_than_k_accesses_witness:
  "replacer_run scenario_tmin scenario_ops (LRUKReplacer_new 7 2, Map.empty)
     = Inr (scenario_state, scenario_history) \<and>
   (1::nat) \<le> 2 \<and> scenario_tmin + int (current_timestamp scenario_state) \<le> 0 \<and>
   frames scenario_state 2 = Some \<lparr>access_timestamps = [- 9223372036854775807, 1], evictable = True\<rparr> \<and>
   scenario_history 2 = Some [1] \<and> length [1 :: int] < 2 \<and>
   (\<exists>v s' hv. Evict scenario_state = Inr (Some v, s') \<and> scenario_history v = Some hv \<and>
      length hv < 2 \<and> hd hv \<le> hd [1])"
proof -
  have K: "(1::nat) \<le> 2" by simp
  have neg: "scenario_tmin + int (current_timestamp scenario_state) \<le> 0"
    by (simp add: scenario_tmin_def scenario_state_def)
  have fr: "frames scenario_state 2 =
      Some \<lparr>access_timestamps = [- 9223372036854775807, 1], evictable = True\<rparr>"
    by (simp add: scenario_state_def)
  have h: "scenario_history 2 = Some [1]"
    by (simp add: scenario_history_def)
  from Evict_prefers_fewer_than_k_accesses [OF scenario_run K neg] fr h
  have "\<exists>v s' hv. Evict scenario_state = Inr (Some v, s') \<and> scenario_history v = Some hv \<and>
      length hv < 2 \<and> hd hv \<le> hd [1]"
    by force
  with scenario_run K neg fr h show ?thesis by simp
qed

section \<open>Properties of the extendible hash table\<close>

subsection \<open>Masks, bits and the redirection loop\<close>

lemma and_mask_mod: "(x::nat) AND (2 ^ d - 1) = x mod 2 ^ d"
  by (metis mask_eq_exp_minus_1 take_bit_eq_mask take_bit_eq_mod)

lemma IndexOf_mod: "IndexOf h t key = h key mod 2 ^ global_depth t"
  unfolding IndexOf_def Let_def by (rule and_mask_mod)

lemma and_mask_mod_Suc: "(x::nat) AND (2 ^ d - Suc 0) = x mod 2 ^ d"
  using and_mask_mod [of x d] by simp

lemma high_bit_test: "((x::nat) AND 2 ^ d \<noteq> 0) = bit x d"
  by (simp add: and_exp_eq_0_iff_not_bit)

lemma high_bit_test_eq: "((x::nat) AND 2 ^ d = 0) = (\<not> bit x d)"
  by (simp add: and_exp_eq_0_iff_not_bit)

lemma high_bit_test_less: "(0 < (x::nat) AND 2 ^ d) = bit x d"
  using high_bit_test [of x d] by simp

lemma mod_Suc_bit: "(x::nat) mod 2 ^ Suc d = x mod 2 ^ d + (if bit x d then 2 ^ d else 0)"
  using take_bit_Suc_from_most [of d x] by (simp add: take_bit_eq_mod)

lemma mod_mod_pow: "d \<le> g \<Longrightarrow> (x::nat) mod 2 ^ g mod 2 ^ d = x mod 2 ^ d"
  by (simp add: mod_mod_cancel le_imp_power_dvd)

lemma length_redirect [simp]: "length (redirect i d nb ds) = length ds"
  by (induction i d nb ds rule: redirect.induct) (subst redirect.simps, simp)

lemma nth_redirect:
  "j < length ds \<Longrightarrow>
   redirect i d nb ds ! j = (if i \<le> j \<and> (j - i) mod (2 * 2 ^ d) = 0 then nb else ds ! j)"
proof (induction i d nb ds rule: redirect.induct)
  case (1 i d nb ds)
  show ?case
  proof (cases "i < length ds")
    case False
    with "1.prems" show ?thesis by (subst redirect.simps) simp
  next
    case True
    have step: "redirect i d nb ds = redirect (i + 2 * 2 ^ d) d nb (ds[i := nb])"
      using True by (subst redirect.simps) simp
    have IH: "redirect (i + 2 * 2 ^ d) d nb (ds[i := nb]) ! j =
        (if i + 2 * 2 ^ d \<le> j \<and> (j - (i + 2 * 2 ^ d)) mod (2 * 2 ^ d) = 0 then nb else ds[i := nb] ! j)"
      using "1.IH" [OF True] "1.prems" by simp
    show ?thesis
    proof (cases "i + 2 * 2 ^ d \<le> j")
      case True
      then have "j - i = (j - (i + 2 * 2 ^ d)) + 2 * 2 ^ d" by simp
      then have "(j - i) mod (2 * 2 ^ d) = (j - (i + 2 * 2 ^ d)) mod (2 * 2 ^ d)"
        by (metis mod_add_self2)
      moreover have "i \<noteq> j" "i \<le> j" using True by auto
      ultimately show ?thesis unfolding step IH using True "1.prems" by auto
    next
      case False
      have key: "(i \<le> j \<and> (j - i) mod (2 * 2 ^ d) = 0) = (j = i)"
      proof (cases "i \<le> j")
        case True
        with False have "j - i < 2 * 2 ^ d" by simp
        then have "(j - i) mod (2 * 2 ^ d) = j - i" by simp
        with True show ?thesis by auto
      next
        case False
        then show ?thesis by auto
      qed
      show ?thesis
        unfolding step IH key using False "1.prems" by (simp add: nth_list_update)
    qed
  qed
qed

lemma find_KeyEquals_None: "find (KeyEquals key) xs = None \<longleftrightarrow> key \<notin> fst ` set xs"
  by (induction xs) (auto simp: KeyEquals_def)

lemma find_KeyEquals_map_of:
  "(case find (KeyEquals key) xs of None \<Rightarrow> None | Some p \<Rightarrow> Some (snd p)) = map_of xs key"
  by (induction xs) (auto simp: KeyEquals_def)

lemma Bucket_Find_map_of: "Bucket_Find key b = map_of (items b) key"
  by (simp add: Bucket_Find_def find_KeyEquals_map_of)


lemma redirect_cond_gen:
  fixes i j m :: nat
  assumes "i < m"
  shows "(i \<le> j \<and> (j - i) mod m = 0) = (j mod m = i)"
proof
  assume a: "i \<le> j \<and> (j - i) mod m = 0"
  then have "j = (j - i) + i" by simp
  then have "j mod m = ((j - i) mod m + i mod m) mod m" by (metis mod_add_eq)
  with a assms show "j mod m = i" by simp
next
  assume b: "j mod m = i"
  then have le: "i \<le> j" by (metis mod_less_eq_dividend)
  have "j = m * (j div m) + j mod m" by simp
  with b have "j - i = m * (j div m)" by (metis add_diff_cancel_right')
  then have "(j - i) mod m = 0" by simp
  with le show "i \<le> j \<and> (j - i) mod m = 0" by simp
qed

lemma nth_redirect_split:
  assumes "c < 2 ^ d" "j < length ds"
  shows "redirect (c + 2 ^ d) d nb ds ! j = (if j mod 2 ^ Suc d = c + 2 ^ d then nb else ds ! j)"
proof -
  have "c + 2 ^ d < 2 * 2 ^ d" using assms(1) by simp
  from redirect_cond_gen [OF this, of j] show ?thesis
    using nth_redirect [OF assms(2), of "c + 2 ^ d" d nb] by simp
qed

lemma mod_pow_cases:
  fixes j c :: nat
  assumes "c < 2 ^ d"
  shows "(j mod 2 ^ d = c) = (j mod 2 ^ Suc d = c \<or> j mod 2 ^ Suc d = c + 2 ^ d)"
proof -
  define r where "r = j mod 2 ^ d"
  define m :: nat where "m = 2 ^ d"
  have lt: "r < m" by (simp add: r_def m_def)
  have c: "c < m" using assms by (simp add: m_def)
  have eq: "j mod 2 ^ Suc d = r + (if bit j d then m else 0)"
    unfolding r_def m_def by (rule mod_Suc_bit)
  have "(r = c) = (r + (if bit j d then m else 0) = c \<or> r + (if bit j d then m else 0) = c + m)"
    using lt c by (cases "bit j d") auto
  then show ?thesis unfolding eq r_def m_def .
qed

lemma nth_doubled:
  assumes "length ds = 2 ^ g" "j < 2 * 2 ^ g"
  shows "(ds @ ds) ! j = ds ! (j mod 2 ^ g)"
proof (cases "j < 2 ^ g")
  case True
  with assms show ?thesis by (simp add: nth_append)
next
  case False
  with assms(2) have "j mod 2 ^ g = j - 2 ^ g"
    by (metis (no_types, lifting) le_add_diff_inverse2 less_diff_conv2 linorder_not_less
        mod_add_self2 mod_less mult_2)
  with False assms show ?thesis by (simp add: nth_append)
qed

lemma slot_char_ext:
  assumes len: "length ds = 2 ^ g" and dx: "dx \<le> g"
    and ch: "\<forall>j<length ds. (ds ! j = x) = (j mod 2 ^ dx = cx)"
  shows "(ds ! (j mod 2 ^ g) = x) = (j mod 2 ^ dx = cx)"
proof -
  have "j mod 2 ^ g < length ds" by (simp add: len)
  with ch have "(ds ! (j mod 2 ^ g) = x) = (j mod 2 ^ g mod 2 ^ dx = cx)" by blast
  then show ?thesis by (simp add: mod_mod_pow [OF dx])
qed

subsection \<open>A split keeps the invariant\<close>

lemma RedistributeBucket_shape:
  assumes "RedistributeBucket h a t = Inr t'"
  shows "items (heap t ! a) \<noteq> []"
    and "global_depth t' =
          (if depth (heap t ! a) = global_depth t then Suc (global_depth t) else global_depth t)"
    and "bucket_size t' = bucket_size t"
    and "num_buckets t' = num_buckets t"
    and "dir t' = redirect (h (fst (hd (items (heap t ! a)))) mod 2 ^ depth (heap t ! a)
                              + 2 ^ depth (heap t ! a))
                    (depth (heap t ! a)) (length (heap t))
                    (if depth (heap t ! a) = global_depth t then dir t @ dir t else dir t)"
    and "heap t' =
          (heap t)[a := (heap t ! a)\<lparr>items := filter (\<lambda>p. \<not> bit (h (fst p)) (depth (heap t ! a)))
                                                   (items (heap t ! a)),
                                       depth := Suc (depth (heap t ! a))\<rparr>]
          @ [\<lparr>array_size = bucket_size t, depth = Suc (depth (heap t ! a)),
              items = filter (\<lambda>p. bit (h (fst p)) (depth (heap t ! a))) (items (heap t ! a))\<rparr>]"
proof -
  from assms have ne: "length (items (heap t ! a)) \<noteq> 0"
    by (auto simp: RedistributeBucket_def Let_def split: if_splits)
  then have "RedistributeBucket h a t = Inr (t\<lparr>global_depth := (if depth (heap t ! a) = global_depth t then global_depth t + 1 else global_depth t),
                  dir := redirect (h (fst (hd (items (heap t ! a)))) mod 2 ^ depth (heap t ! a)
                              + 2 ^ depth (heap t ! a))
                    (depth (heap t ! a)) (length (heap t))
                    (if depth (heap t ! a) = global_depth t then dir t @ dir t else dir t),
                  heap := (heap t)[a := (heap t ! a)\<lparr>items := filter (\<lambda>p. \<not> bit (h (fst p)) (depth (heap t ! a)))
                                                   (items (heap t ! a)),
                                       depth := Suc (depth (heap t ! a))\<rparr>]
          @ [\<lparr>array_size = bucket_size t, depth = Suc (depth (heap t ! a)),
              items = filter (\<lambda>p. bit (h (fst p)) (depth (heap t ! a))) (items (heap t ! a))\<rparr>]\<rparr>)"
    by (simp add: RedistributeBucket_def Let_def and_mask_mod_Suc high_bit_test_eq high_bit_test_less)
  with assms have t': "t' = t\<lparr>global_depth := (if depth (heap t ! a) = global_depth t then global_depth t + 1 else global_depth t),
                  dir := redirect (h (fst (hd (items (heap t ! a)))) mod 2 ^ depth (heap t ! a)
                              + 2 ^ depth (heap t ! a))
                    (depth (heap t ! a)) (length (heap t))
                    (if depth (heap t ! a) = global_depth t then dir t @ dir t else dir t),
                  heap := (heap t)[a := (heap t ! a)\<lparr>items := filter (\<lambda>p. \<not> bit (h (fst p)) (depth (heap t ! a)))
                                                   (items (heap t ! a)),
                                       depth := Suc (depth (heap t ! a))\<rparr>]
          @ [\<lparr>array_size = bucket_size t, depth = Suc (depth (heap t ! a)),
              items = filter (\<lambda>p. bit (h (fst p)) (depth (heap t ! a))) (items (heap t ! a))\<rparr>]\<rparr>"
    by (simp only: sum.inject)
  show "items (heap t ! a) \<noteq> []" using ne by simp
  show "global_depth t' =
          (if depth (heap t ! a) = global_depth t then Suc (global_depth t) else global_depth t)"
    by (simp add: t')
  show "bucket_size t' = bucket_size t" by (simp add: t')
  show "num_buckets t' = num_buckets t" by (simp add: t')
  show "dir t' = redirect (h (fst (hd (items (heap t ! a)))) mod 2 ^ depth (heap t ! a)
                              + 2 ^ depth (heap t ! a))
                    (depth (heap t ! a)) (length (heap t))
                    (if depth (heap t ! a) = global_depth t then dir t @ dir t else dir t)"
    by (simp add: t')
  show "heap t' =
          (heap t)[a := (heap t ! a)\<lparr>items := filter (\<lambda>p. \<not> bit (h (fst p)) (depth (heap t ! a)))
                                                   (items (heap t ! a)),
                                       depth := Suc (depth (heap t ! a))\<rparr>]
          @ [\<lparr>array_size = bucket_size t, depth = Suc (depth (heap t ! a)),
              items = filter (\<lambda>p. bit (h (fst p)) (depth (heap t ! a))) (items (heap t ! a))\<rparr>]"
    by (simp add: t')
qed

lemma RedistributeBucket_succeeds:
  "items (heap t ! a) \<noteq> [] \<Longrightarrow> \<exists>t'. RedistributeBucket h a t = Inr t'"
  by (simp add: RedistributeBucket_def Let_def)

lemma bucket_prefix:
  assumes ok: "bucket_ok h t a" and ne: "items (heap t ! a) \<noteq> []"
  defines "c0 \<equiv> h (fst (hd (items (heap t ! a)))) mod 2 ^ depth (heap t ! a)"
  shows "c0 < 2 ^ depth (heap t ! a)"
    and "\<forall>j<length (dir t). (dir t ! j = a) = (j mod 2 ^ depth (heap t ! a) = c0)"
    and "\<forall>p\<in>set (items (heap t ! a)). h (fst p) mod 2 ^ depth (heap t ! a) = c0"
proof -
  from ok obtain c where c: "c < 2 ^ depth (heap t ! a)"
    and sl: "\<forall>j<length (dir t). (dir t ! j = a) = (j mod 2 ^ depth (heap t ! a) = c)"
    and ks: "\<forall>p\<in>set (items (heap t ! a)). h (fst p) mod 2 ^ depth (heap t ! a) = c"
    unfolding bucket_ok_def Let_def by blast
  from ne have "hd (items (heap t ! a)) \<in> set (items (heap t ! a))" by simp
  with ks have "c0 = c" unfolding c0_def by blast
  with c sl ks show "c0 < 2 ^ depth (heap t ! a)"
    and "\<forall>j<length (dir t). (dir t ! j = a) = (j mod 2 ^ depth (heap t ! a) = c0)"
    and "\<forall>p\<in>set (items (heap t ! a)). h (fst p) mod 2 ^ depth (heap t ! a) = c0"
    by simp_all
qed

lemma RedistributeBucket_dir:
  assumes inv: "table_inv h t" and a: "a < length (heap t)"
    and red: "RedistributeBucket h a t = Inr t'"
    and d: "d = depth (heap t ! a)"
    and c0: "c0 = h (fst (hd (items (heap t ! a)))) mod 2 ^ d"
  shows "length (dir t') = 2 ^ global_depth t'"
    and "Suc d \<le> global_depth t'"
    and "global_depth t \<le> global_depth t'"
    and "\<forall>j<length (dir t'). dir t' ! j =
           (if j mod 2 ^ Suc d = c0 + 2 ^ d then length (heap t) else dir t ! (j mod 2 ^ global_depth t))"
proof -
  have ne: "items (heap t ! a) \<noteq> []" by (rule RedistributeBucket_shape(1) [OF red])
  have gd': "global_depth t' = (if d = global_depth t then Suc (global_depth t) else global_depth t)"
    unfolding d by (rule RedistributeBucket_shape(2) [OF red])
  from inv a have ok: "bucket_ok h t a" and len: "length (dir t) = 2 ^ global_depth t"
    unfolding table_inv_def by blast+
  from ok have dle: "d \<le> global_depth t" unfolding bucket_ok_def Let_def d by blast
  have c0lt: "c0 < 2 ^ d"
    unfolding c0 d by (rule bucket_prefix(1) [OF ok ne])
  define dir1 where "dir1 = (if d = global_depth t then dir t @ dir t else dir t)"
  have dir': "dir t' = redirect (c0 + 2 ^ d) d (length (heap t)) dir1"
    unfolding c0 d dir1_def by (rule RedistributeBucket_shape(5) [OF red])
  have len1: "length dir1 = 2 ^ global_depth t'"
    using len gd' by (simp add: dir1_def)
  have nth1: "dir1 ! j = dir t ! (j mod 2 ^ global_depth t)" if "j < length dir1" for j
  proof (cases "d = global_depth t")
    case True
    with that len have "j < 2 * 2 ^ global_depth t" by (simp add: dir1_def)
    from nth_doubled [OF len this] True show ?thesis by (simp add: dir1_def)
  next
    case False
    with that len show ?thesis by (simp add: dir1_def)
  qed
  show "length (dir t') = 2 ^ global_depth t'"
    by (simp add: dir' len1)
  show "Suc d \<le> global_depth t'" using dle gd' by auto
  show "global_depth t \<le> global_depth t'" using gd' by auto
  show "\<forall>j<length (dir t'). dir t' ! j =
           (if j mod 2 ^ Suc d = c0 + 2 ^ d then length (heap t) else dir t ! (j mod 2 ^ global_depth t))"
  proof (intro allI impI)
    fix j assume "j < length (dir t')"
    then have j: "j < length dir1" by (simp add: dir')
    from nth_redirect_split [OF c0lt j, of "length (heap t)"] nth1 [OF j]
    show "dir t' ! j =
           (if j mod 2 ^ Suc d = c0 + 2 ^ d then length (heap t) else dir t ! (j mod 2 ^ global_depth t))"
      by (simp add: dir')
  qed
qed


lemma bucket_okI:
  assumes "heap t ! a = b" "array_size b = bucket_size t" "length (items b) \<le> bucket_size t"
    "distinct (map fst (items b))" "depth b \<le> global_depth t" "c < 2 ^ depth b"
    "\<forall>j<length (dir t). (dir t ! j = a) = (j mod 2 ^ depth b = c)"
    "\<forall>p\<in>set (items b). h (fst p) mod 2 ^ depth b = c"
  shows "bucket_ok h t a"
  unfolding bucket_ok_def Let_def using assms by blast

lemma bucket_okD:
  assumes "bucket_ok h t a"
  shows "array_size (heap t ! a) = bucket_size t"
    and "length (items (heap t ! a)) \<le> bucket_size t"
    and "distinct (map fst (items (heap t ! a)))"
    and "depth (heap t ! a) \<le> global_depth t"
    and "\<exists>c<2 ^ depth (heap t ! a).
           (\<forall>j<length (dir t). (dir t ! j = a) = (j mod 2 ^ depth (heap t ! a) = c)) \<and>
           (\<forall>p\<in>set (items (heap t ! a)). h (fst p) mod 2 ^ depth (heap t ! a) = c)"
  using assms unfolding bucket_ok_def Let_def by blast+

lemma RedistributeBucket_inv:
  assumes inv: "table_inv h t" and a: "a < length (heap t)"
    and red: "RedistributeBucket h a t = Inr t'"
  shows "table_inv h t'"
proof -
  define d where "d = depth (heap t ! a)"
  define c0 where "c0 = h (fst (hd (items (heap t ! a)))) mod 2 ^ d"
  define g where "g = global_depth t"
  define new where "new = length (heap t)"
  define old_items where "old_items = filter (\<lambda>p. \<not> bit (h (fst p)) d) (items (heap t ! a))"
  define new_items where "new_items = filter (\<lambda>p. bit (h (fst p)) d) (items (heap t ! a))"
  define ba where "ba = (heap t ! a)\<lparr>items := old_items, depth := Suc d\<rparr>"
  define bn :: "('a, 'b) Bucket"
    where "bn = \<lparr>array_size = bucket_size t, depth = Suc d, items = new_items\<rparr>"
  have ne: "items (heap t ! a) \<noteq> []" by (rule RedistributeBucket_shape(1) [OF red])
  have bs': "bucket_size t' = bucket_size t" by (rule RedistributeBucket_shape(3) [OF red])
  have heap': "heap t' = (heap t)[a := ba] @ [bn]"
    unfolding ba_def bn_def old_items_def new_items_def d_def
    by (rule RedistributeBucket_shape(6) [OF red])
  note dirfacts = RedistributeBucket_dir [OF inv a red d_def c0_def, folded new_def g_def]
  have len': "length (dir t') = 2 ^ global_depth t'" by (rule dirfacts(1))
  have dle': "Suc d \<le> global_depth t'" by (rule dirfacts(2))
  have gle: "g \<le> global_depth t'" by (rule dirfacts(3))
  have nth': "dir t' ! j = (if j mod 2 ^ Suc d = c0 + 2 ^ d then new else dir t ! (j mod 2 ^ g))"
    if "j < length (dir t')" for j
    using dirfacts(4) that by blast
  from inv have bpos: "0 < bucket_size t" and len: "length (dir t) = 2 ^ g"
    and rng: "\<And>j. j < length (dir t) \<Longrightarrow> dir t ! j < length (heap t)"
    and oks: "\<And>x. x < length (heap t) \<Longrightarrow> bucket_ok h t x"
    unfolding table_inv_def g_def by blast+
  note oka = bucket_okD [OF oks [OF a]]
  note pre = bucket_prefix [OF oks [OF a] ne, folded d_def, folded c0_def]
  have c0lt: "c0 < 2 ^ d" by (rule pre(1))
  have slots_a: "(dir t ! j = a) = (j mod 2 ^ d = c0)" if "j < length (dir t)" for j
    using pre(2) that by blast
  have keys_a: "h (fst p) mod 2 ^ d = c0" if "p \<in> set (items (heap t ! a))" for p
    using pre(3) that by blast
  have dle: "d \<le> g" using oka(4) by (simp add: d_def g_def)
  have modlt: "j mod 2 ^ g < length (dir t)" for j by (simp add: len)
  \<comment> \<open>the store after the split\<close>
  have hlen: "length (heap t') = Suc new" by (simp add: heap' new_def)
  have h_a: "heap t' ! a = ba" using a by (simp add: heap' nth_append)
  have h_new: "heap t' ! new = bn" by (simp add: heap' new_def nth_append)
  have h_other: "heap t' ! x = heap t ! x" if "x < length (heap t)" "x \<noteq> a" for x
    using that by (simp add: heap' nth_append)
  \<comment> \<open>slots of the old bucket, of the new bucket, of the others\<close>
  have ext_a: "(dir t ! (j mod 2 ^ g) = a) = (j mod 2 ^ d = c0)" for j
    using slot_char_ext [OF len dle, of a c0 j] pre(2) by blast
  have slots_a': "(dir t' ! j = a) = (j mod 2 ^ Suc d = c0)" if j: "j < length (dir t')" for j
  proof (cases "j mod 2 ^ Suc d = c0 + 2 ^ d")
    case True
    with nth' [OF j] a c0lt show ?thesis by (simp add: new_def)
  next
    case False
    with nth' [OF j] ext_a [of j] mod_pow_cases [OF c0lt, of j] show ?thesis by simp
  qed
  have slots_new': "(dir t' ! j = new) = (j mod 2 ^ Suc d = c0 + 2 ^ d)" if j: "j < length (dir t')" for j
  proof (cases "j mod 2 ^ Suc d = c0 + 2 ^ d")
    case True
    with nth' [OF j] show ?thesis by simp
  next
    case False
    from rng [OF modlt [of j]] have "dir t ! (j mod 2 ^ g) \<noteq> new" by (simp add: new_def)
    with False nth' [OF j] show ?thesis by simp
  qed
  have slots_other': "(dir t' ! j = x) = (dir t ! (j mod 2 ^ g) = x)"
    if j: "j < length (dir t')" and x: "x < length (heap t)" "x \<noteq> a" for j x
  proof (cases "j mod 2 ^ Suc d = c0 + 2 ^ d")
    case True
    with mod_pow_cases [OF c0lt, of j] have "j mod 2 ^ d = c0" by simp
    with ext_a [of j] have "dir t ! (j mod 2 ^ g) = a" by simp
    with True nth' [OF j] x show ?thesis by (simp add: new_def)
  next
    case False
    with nth' [OF j] show ?thesis by simp
  qed
  \<comment> \<open>the three kinds of bucket\<close>
  have ok_a: "bucket_ok h t' a"
  proof (rule bucket_okI [OF h_a, where c = c0])
    show "array_size ba = bucket_size t'" using oka(1) by (simp add: ba_def bs')
    show "length (items ba) \<le> bucket_size t'"
      using oka(2) le_trans [OF length_filter_le] by (simp add: ba_def bs' old_items_def)
    show "distinct (map fst (items ba))"
      using oka(3) by (simp add: ba_def old_items_def distinct_map_filter)
    show "depth ba \<le> global_depth t'" using dle' by (simp add: ba_def)
    show "c0 < 2 ^ depth ba" using c0lt by (simp add: ba_def)
    show "\<forall>j<length (dir t'). (dir t' ! j = a) = (j mod 2 ^ depth ba = c0)"
      using slots_a' by (simp add: ba_def)
    show "\<forall>p\<in>set (items ba). h (fst p) mod 2 ^ depth ba = c0"
    proof
      fix p assume "p \<in> set (items ba)"
      then have "p \<in> set (items (heap t ! a))" "\<not> bit (h (fst p)) d"
        by (simp_all add: ba_def old_items_def)
      with keys_a [of p] mod_Suc_bit [of "h (fst p)" d]
      show "h (fst p) mod 2 ^ depth ba = c0" by (simp add: ba_def)
    qed
  qed
  have ok_new: "bucket_ok h t' new"
  proof (rule bucket_okI [OF h_new, where c = "c0 + 2 ^ d"])
    show "array_size bn = bucket_size t'" by (simp add: bn_def bs')
    show "length (items bn) \<le> bucket_size t'"
      using oka(2) le_trans [OF length_filter_le] by (simp add: bn_def bs' new_items_def)
    show "distinct (map fst (items bn))"
      using oka(3) by (simp add: bn_def new_items_def distinct_map_filter)
    show "depth bn \<le> global_depth t'" using dle' by (simp add: bn_def)
    show "c0 + 2 ^ d < 2 ^ depth bn" using c0lt by (simp add: bn_def)
    show "\<forall>j<length (dir t'). (dir t' ! j = new) = (j mod 2 ^ depth bn = c0 + 2 ^ d)"
      using slots_new' by (simp add: bn_def)
    show "\<forall>p\<in>set (items bn). h (fst p) mod 2 ^ depth bn = c0 + 2 ^ d"
    proof
      fix p assume "p \<in> set (items bn)"
      then have "p \<in> set (items (heap t ! a))" "bit (h (fst p)) d"
        by (simp_all add: bn_def new_items_def)
      with keys_a [of p] mod_Suc_bit [of "h (fst p)" d]
      show "h (fst p) mod 2 ^ depth bn = c0 + 2 ^ d" by (simp add: bn_def)
    qed
  qed
  have ok_other: "bucket_ok h t' x" if x: "x < length (heap t)" "x \<noteq> a" for x
  proof -
    note okx = bucket_okD [OF oks [OF x(1)]]
    from okx(5) obtain c where c: "c < 2 ^ depth (heap t ! x)"
      and sl: "\<forall>j<length (dir t). (dir t ! j = x) = (j mod 2 ^ depth (heap t ! x) = c)"
      and ks: "\<forall>p\<in>set (items (heap t ! x)). h (fst p) mod 2 ^ depth (heap t ! x) = c"
      by blast
    have dx: "depth (heap t ! x) \<le> g" using okx(4) by (simp add: g_def)
    show ?thesis
    proof (rule bucket_okI [OF h_other [OF x], where c = c])
      show "array_size (heap t ! x) = bucket_size t'" using okx(1) by (simp add: bs')
      show "length (items (heap t ! x)) \<le> bucket_size t'" using okx(2) by (simp add: bs')
      show "distinct (map fst (items (heap t ! x)))" by (rule okx(3))
      show "depth (heap t ! x) \<le> global_depth t'" using dx gle by simp
      show "c < 2 ^ depth (heap t ! x)" by (rule c)
      show "\<forall>j<length (dir t'). (dir t' ! j = x) = (j mod 2 ^ depth (heap t ! x) = c)"
        using slots_other' [OF _ x] slot_char_ext [OF len dx sl] by simp
      show "\<forall>p\<in>set (items (heap t ! x)). h (fst p) mod 2 ^ depth (heap t ! x) = c" by (rule ks)
    qed
  qed
  have oks': "bucket_ok h t' x" if "x < length (heap t')" for x
  proof -
    from that hlen have "x = a \<or> x = new \<or> (x < length (heap t) \<and> x \<noteq> a)"
      by (auto simp: new_def)
    with ok_a ok_new ok_other show ?thesis by blast
  qed
  have rng': "dir t' ! j < length (heap t')" if j: "j < length (dir t')" for j
    using nth' [OF j] rng [OF modlt [of j]] hlen by (auto simp: new_def)
  show ?thesis
    unfolding table_inv_def using bpos bs' len' rng' oks' by simp
qed

subsection \<open>Construction, routing and updates of one bucket\<close>

lemma table_inv_new:
  assumes "ExtendibleHashTable_new n = Inr t"
  shows "table_inv h t" and "depth_inv t" and "num_buckets t = 1"
proof -
  from assms have n: "0 < n"
    and t: "t = \<lparr>global_depth = 0, bucket_size = n, num_buckets = 1, dir = [0],
                  heap = [Bucket_new n default_depth]\<rparr>"
    by (auto simp: ExtendibleHashTable_new_def split: if_splits)
  have "bucket_ok h t 0"
    by (rule bucket_okI [where c = 0 and b = "Bucket_new n default_depth"])
       (simp_all add: t Bucket_new_def default_depth_def)
  with n show "table_inv h t" by (simp add: table_inv_def t)
  show "depth_inv t" by (simp add: depth_inv_def t)
  show "num_buckets t = 1" by (simp add: t)
qed

lemma table_inv_index:
  assumes "table_inv h t"
  shows "IndexOf h t key < length (dir t)" and "dir t ! IndexOf h t key < length (heap t)"
proof -
  from assms have len: "length (dir t) = 2 ^ global_depth t"
    and rng: "\<forall>j<length (dir t). dir t ! j < length (heap t)"
    unfolding table_inv_def by blast+
  show i: "IndexOf h t key < length (dir t)" by (simp add: IndexOf_mod len)
  with rng show "dir t ! IndexOf h t key < length (heap t)" by blast
qed

text \<open>A key stored in a bucket is routed to that bucket.\<close>

lemma table_inv_routed:
  assumes inv: "table_inv h t" and a: "a < length (heap t)"
    and p: "p \<in> set (items (heap t ! a))"
  shows "dir t ! IndexOf h t (fst p) = a"
proof -
  from inv a have ok: "bucket_ok h t a" and len: "length (dir t) = 2 ^ global_depth t"
    unfolding table_inv_def by blast+
  note okd = bucket_okD [OF ok]
  from okd(5) p obtain c
    where sl: "\<forall>j<length (dir t). (dir t ! j = a) = (j mod 2 ^ depth (heap t ! a) = c)"
      and k: "h (fst p) mod 2 ^ depth (heap t ! a) = c" by blast
  from slot_char_ext [OF len okd(4) sl, of "h (fst p)"] k show ?thesis
    by (simp add: IndexOf_mod)
qed

text \<open>The hash of a key has the prefix of the bucket the key is routed to.\<close>

lemma table_inv_prefix:
  assumes inv: "table_inv h t"
    and sl: "\<forall>j<length (dir t). (dir t ! j = dir t ! IndexOf h t key) =
               (j mod 2 ^ depth (heap t ! (dir t ! IndexOf h t key)) = c)"
  shows "h key mod 2 ^ depth (heap t ! (dir t ! IndexOf h t key)) = c"
proof -
  note ix = table_inv_index [OF inv, of key]
  from inv ix(2) have ok: "bucket_ok h t (dir t ! IndexOf h t key)"
    and len: "length (dir t) = 2 ^ global_depth t"
    unfolding table_inv_def by blast+
  from slot_char_ext [OF len bucket_okD(4) [OF ok] sl, of "h key"] show ?thesis
    by (simp add: IndexOf_mod)
qed

lemma bucket_ok_cong:
  assumes "heap t' ! x = heap t ! x" "dir t' = dir t" "bucket_size t' = bucket_size t"
    "global_depth t' = global_depth t"
  shows "bucket_ok h t' x = bucket_ok h t x"
  unfolding bucket_ok_def Let_def assms ..

lemma map_fst_assign_first: "map fst (assign_first key v xs) = map fst xs"
  by (induction xs) (auto simp: KeyEquals_def)

lemma map_of_assign_first:
  "key \<in> fst ` set xs \<Longrightarrow> map_of (assign_first key v xs) key = Some v"
  by (induction xs) (auto simp: KeyEquals_def)

lemma map_fst_erase_first: "map fst (erase_first key xs) = remove1 key (map fst xs)"
  by (induction xs) (auto simp: KeyEquals_def)

lemma set_erase_first: "set (erase_first key xs) \<subseteq> set xs"
  by (induction xs) auto

lemma length_erase_first: "length (erase_first key xs) \<le> length xs"
  by (induction xs) auto

lemma map_of_erase_first:
  "distinct (map fst xs) \<Longrightarrow> map_of (erase_first key xs) key = None"
  by (induction xs) (auto simp: KeyEquals_def map_of_eq_None_iff)

text \<open>Replacing the items of one bucket by items with the same prefix keeps the invariant.\<close>

lemma table_inv_update_items:
  assumes inv: "table_inv h t" and a: "a < length (heap t)"
    and len: "length xs \<le> bucket_size t" and dist: "distinct (map fst xs)"
    and keys: "\<And>p c. p \<in> set xs \<Longrightarrow>
                 \<forall>j<length (dir t). (dir t ! j = a) = (j mod 2 ^ depth (heap t ! a) = c) \<Longrightarrow>
                 c < 2 ^ depth (heap t ! a) \<Longrightarrow>
                 h (fst p) mod 2 ^ depth (heap t ! a) = c"
  shows "table_inv h (t\<lparr>heap := (heap t)[a := (heap t ! a)\<lparr>items := xs\<rparr>]\<rparr>)"
proof -
  define t' where "t' = t\<lparr>heap := (heap t)[a := (heap t ! a)\<lparr>items := xs\<rparr>]\<rparr>"
  from inv have bpos: "0 < bucket_size t" and dlen: "length (dir t) = 2 ^ global_depth t"
    and rng: "\<forall>j<length (dir t). dir t ! j < length (heap t)"
    and oks: "\<And>x. x < length (heap t) \<Longrightarrow> bucket_ok h t x"
    unfolding table_inv_def by blast+
  note oka = bucket_okD [OF oks [OF a]]
  from oka(5) obtain c where c: "c < 2 ^ depth (heap t ! a)"
    and sl: "\<forall>j<length (dir t). (dir t ! j = a) = (j mod 2 ^ depth (heap t ! a) = c)"
    by blast
  have h_a: "heap t' ! a = (heap t ! a)\<lparr>items := xs\<rparr>" using a by (simp add: t'_def)
  have ok_a: "bucket_ok h t' a"
  proof (rule bucket_okI [OF h_a, where c = c])
    show "array_size ((heap t ! a)\<lparr>items := xs\<rparr>) = bucket_size t'"
      using oka(1) by (simp add: t'_def)
    show "length (items ((heap t ! a)\<lparr>items := xs\<rparr>)) \<le> bucket_size t'"
      using len by (simp add: t'_def)
    show "distinct (map fst (items ((heap t ! a)\<lparr>items := xs\<rparr>)))" using dist by simp
    show "depth ((heap t ! a)\<lparr>items := xs\<rparr>) \<le> global_depth t'"
      using oka(4) by (simp add: t'_def)
    show "c < 2 ^ depth ((heap t ! a)\<lparr>items := xs\<rparr>)" using c by simp
    show "\<forall>j<length (dir t'). (dir t' ! j = a) = (j mod 2 ^ depth ((heap t ! a)\<lparr>items := xs\<rparr>) = c)"
      using sl by (simp add: t'_def)
    show "\<forall>p\<in>set (items ((heap t ! a)\<lparr>items := xs\<rparr>)).
            h (fst p) mod 2 ^ depth ((heap t ! a)\<lparr>items := xs\<rparr>) = c"
      using keys [OF _ sl c] by simp
  qed
  have ok_x: "bucket_ok h t' x" if "x < length (heap t)" "x \<noteq> a" for x
  proof -
    have "bucket_ok h t' x = bucket_ok h t x"
      by (rule bucket_ok_cong) (use that in \<open>simp_all add: t'_def\<close>)
    with oks [OF that(1)] show ?thesis by simp
  qed
  have "bucket_ok h t' x" if "x < length (heap t')" for x
    using that ok_a ok_x [of x] by (cases "x = a") (simp_all add: t'_def)
  then show ?thesis
    unfolding t'_def [symmetric] table_inv_def
    using bpos dlen rng by (simp add: t'_def)
qed

subsection \<open>Insertion into a bucket, removal\<close>

lemma bucket_prefix_unique:
  assumes inv: "table_inv h t" and a: "a < length (heap t)"
    and sl: "\<forall>j<length (dir t). (dir t ! j = a) = (j mod 2 ^ depth (heap t ! a) = c)"
    and p: "p \<in> set (items (heap t ! a))"
  shows "h (fst p) mod 2 ^ depth (heap t ! a) = c"
proof -
  from inv a have ok: "bucket_ok h t a" unfolding table_inv_def by blast
  have "dir t ! IndexOf h t (fst p) = a" by (rule table_inv_routed [OF inv a p])
  with sl table_inv_index(1) [OF inv, of "fst p"]
  have "IndexOf h t (fst p) mod 2 ^ depth (heap t ! a) = c" by blast
  then show ?thesis
    by (simp add: IndexOf_mod mod_mod_pow [OF bucket_okD(4) [OF ok]])
qed

lemma Bucket_Insert_cases:
  assumes "Bucket_Insert key v b = (ok, b')"
  shows "(key \<in> fst ` set (items b) \<and> ok \<and> b' = b\<lparr>items := assign_first key v (items b)\<rparr>) \<or>
         (key \<notin> fst ` set (items b) \<and> length (items b) \<noteq> array_size b \<and> ok \<and>
            b' = b\<lparr>items := items b @ [(key, v)]\<rparr>) \<or>
         (key \<notin> fst ` set (items b) \<and> length (items b) = array_size b \<and> \<not> ok \<and> b' = b)"
proof (cases "find (KeyEquals key) (items b)")
  case None
  then have "key \<notin> fst ` set (items b)" by (simp add: find_KeyEquals_None)
  with assms None show ?thesis
    by (auto simp: Bucket_Insert_def IsFull_def split: if_splits)
next
  case (Some p)
  then have "key \<in> fst ` set (items b)"
    using find_KeyEquals_None [of key "items b"] by auto
  with assms Some show ?thesis
    by (auto simp: Bucket_Insert_def)
qed

lemma Find_map_of:
  "Find h key t = map_of (items (heap t ! (dir t ! IndexOf h t key))) key"
  by (simp add: Find_def Let_def Bucket_Find_map_of)

lemma Find_update_items:
  assumes "dir t ! IndexOf h t key < length (heap t)"
  shows "Find h key (t\<lparr>heap := (heap t)[dir t ! IndexOf h t key :=
                                      (heap t ! (dir t ! IndexOf h t key))\<lparr>items := xs\<rparr>]\<rparr>)
         = map_of xs key"
  using assms by (simp add: Find_map_of IndexOf_def)

text \<open>The step of \<open>Insert\<close> that ends the loop.\<close>

lemma Bucket_Insert_inv:
  assumes inv: "table_inv h t"
    and ins: "Bucket_Insert key v (heap t ! (dir t ! IndexOf h t key)) = (True, b')"
  defines "t' \<equiv> t\<lparr>heap := (heap t)[dir t ! IndexOf h t key := b']\<rparr>"
  shows "table_inv h t'" and "Find h key t' = Some v"
proof -
  define a where "a = dir t ! IndexOf h t key"
  define b where "b = heap t ! a"
  note ix = table_inv_index [OF inv, of key, folded a_def]
  from inv ix(2) have ok: "bucket_ok h t a" unfolding table_inv_def by blast
  note okd = bucket_okD [OF ok, folded b_def]
  have pre: "h key mod 2 ^ depth b = c"
    if "\<forall>j<length (dir t). (dir t ! j = a) = (j mod 2 ^ depth b = c)" for c
    using table_inv_prefix [OF inv, of key c] that by (simp add: a_def b_def)
  have old: "h (fst p) mod 2 ^ depth b = c"
    if "p \<in> set (items b)" "\<forall>j<length (dir t). (dir t ! j = a) = (j mod 2 ^ depth b = c)" for p c
  proof -
    from okd(5) obtain c' where c': "c' < 2 ^ depth b"
      and sl: "\<forall>j<length (dir t). (dir t ! j = a) = (j mod 2 ^ depth b = c')"
      and ks: "\<forall>p\<in>set (items b). h (fst p) mod 2 ^ depth b = c'" by blast
    from pre [OF sl] pre [OF that(2)] have "c' = c" by simp
    with ks that(1) show ?thesis by blast
  qed
  from Bucket_Insert_cases [OF ins [folded a_def, folded b_def]]
  consider (overwrite) "key \<in> fst ` set (items b)" "b' = b\<lparr>items := assign_first key v (items b)\<rparr>"
    | (append) "key \<notin> fst ` set (items b)" "length (items b) \<noteq> array_size b"
        "b' = b\<lparr>items := items b @ [(key, v)]\<rparr>"
    by blast
  then have "table_inv h t' \<and> Find h key t' = Some v"
  proof cases
    case overwrite
    define xs where "xs = assign_first key v (items b)"
    have t': "t' = t\<lparr>heap := (heap t)[a := (heap t ! a)\<lparr>items := xs\<rparr>]\<rparr>"
      by (simp add: t'_def a_def b_def xs_def overwrite(2))
    have fsts: "map fst xs = map fst (items b)" by (simp add: xs_def map_fst_assign_first)
    have len: "length xs \<le> bucket_size t"
      using okd(2) arg_cong [OF fsts, of length] by simp
    have dist: "distinct (map fst xs)" using okd(3) fsts by simp
    have keys: "h (fst p) mod 2 ^ depth (heap t ! a) = c"
      if "p \<in> set xs" "\<forall>j<length (dir t). (dir t ! j = a) = (j mod 2 ^ depth (heap t ! a) = c)" for p c
    proof -
      from that(1) have "fst p \<in> set (map fst xs)" by simp
      then obtain q where "q \<in> set (items b)" "fst q = fst p" unfolding fsts by auto
      with old [of q c] that(2) show ?thesis by (simp add: b_def)
    qed
    have "table_inv h t'"
      unfolding t' by (rule table_inv_update_items [OF inv ix(2) len dist keys])
    moreover have "Find h key t' = Some v"
      unfolding t' a_def
      using Find_update_items [OF ix(2) [unfolded a_def], of xs] map_of_assign_first [OF overwrite(1), of v]
      by (simp add: xs_def)
    ultimately show ?thesis by simp
  next
    case append
    define xs where "xs = items b @ [(key, v)]"
    have t': "t' = t\<lparr>heap := (heap t)[a := (heap t ! a)\<lparr>items := xs\<rparr>]\<rparr>"
      by (simp add: t'_def a_def b_def xs_def append(3))
    have len: "length xs \<le> bucket_size t"
      using okd(1,2) append(2) by (simp add: xs_def)
    have dist: "distinct (map fst xs)" using okd(3) append(1) by (simp add: xs_def)
    have keys: "h (fst p) mod 2 ^ depth (heap t ! a) = c"
      if "p \<in> set xs" "\<forall>j<length (dir t). (dir t ! j = a) = (j mod 2 ^ depth (heap t ! a) = c)" for p c
      using that old [of p c] pre [of c] by (auto simp: xs_def b_def)
    have "table_inv h t'"
      unfolding t' by (rule table_inv_update_items [OF inv ix(2) len dist keys])
    moreover have "map_of (items b) key = None"
      using append(1) by (simp add: map_of_eq_None_iff)
    then have "map_of xs key = Some v"
      by (simp add: xs_def map_add_def)
    then have "Find h key t' = Some v"
      unfolding t' a_def
      using Find_update_items [OF ix(2) [unfolded a_def], of xs] by simp
    ultimately show ?thesis by simp
  qed
  then show "table_inv h t'" and "Find h key t' = Some v" by simp_all
qed

lemma Remove_key_shape:
  assumes "Remove_key h key t = (r, t')"
  shows "r = (key \<in> fst ` set (items (heap t ! (dir t ! IndexOf h t key))))"
    and "r \<Longrightarrow> t' = t\<lparr>heap := (heap t)[dir t ! IndexOf h t key :=
              (heap t ! (dir t ! IndexOf h t key))
                \<lparr>items := erase_first key (items (heap t ! (dir t ! IndexOf h t key)))\<rparr>]\<rparr>"
    and "\<not> r \<Longrightarrow> t' = t"
proof -
  define a where "a = dir t ! IndexOf h t key"
  show "r = (key \<in> fst ` set (items (heap t ! (dir t ! IndexOf h t key))))"
   and "r \<Longrightarrow> t' = t\<lparr>heap := (heap t)[dir t ! IndexOf h t key :=
              (heap t ! (dir t ! IndexOf h t key))
                \<lparr>items := erase_first key (items (heap t ! (dir t ! IndexOf h t key)))\<rparr>]\<rparr>"
   and "\<not> r \<Longrightarrow> t' = t"
    unfolding a_def [symmetric]
  proof (atomize (full), cases "find (KeyEquals key) (items (heap t ! a))")
    case None
    then have "key \<notin> fst ` set (items (heap t ! a))" by (simp add: find_KeyEquals_None)
    moreover from None assms have "r = False" "t' = t\<lparr>heap := (heap t)[a := heap t ! a]\<rparr>"
      by (simp_all add: Remove_key_def Bucket_Remove_def Let_def a_def)
    moreover have "t\<lparr>heap := (heap t)[a := heap t ! a]\<rparr> = t" by simp
    ultimately show "(r = (key \<in> fst ` set (items (heap t ! a)))) \<and>
      (r \<longrightarrow> t' = t\<lparr>heap := (heap t)[a := (heap t ! a)\<lparr>items := erase_first key (items (heap t ! a))\<rparr>]\<rparr>) \<and>
      (\<not> r \<longrightarrow> t' = t)"
      by simp
  next
    case (Some p)
    then have "key \<in> fst ` set (items (heap t ! a))"
      using find_KeyEquals_None [of key "items (heap t ! a)"] by auto
    moreover from Some assms have "r = True"
      "t' = t\<lparr>heap := (heap t)[a := (heap t ! a)\<lparr>items := erase_first key (items (heap t ! a))\<rparr>]\<rparr>"
      by (simp_all add: Remove_key_def Bucket_Remove_def Let_def a_def)
    ultimately show "(r = (key \<in> fst ` set (items (heap t ! a)))) \<and>
      (r \<longrightarrow> t' = t\<lparr>heap := (heap t)[a := (heap t ! a)\<lparr>items := erase_first key (items (heap t ! a))\<rparr>]\<rparr>) \<and>
      (\<not> r \<longrightarrow> t' = t)"
      by simp
  qed
qed

lemma Remove_key_inv:
  assumes inv: "table_inv h t" and rm: "Remove_key h key t = (r, t')"
  shows "table_inv h t'" and "Find h key t' = None" and "r = (Find h key t \<noteq> None)"
    and "dir t' = dir t" and "global_depth t' = global_depth t"
    and "length (heap t') = length (heap t)"
    and "\<forall>x<length (heap t). depth (heap t' ! x) = depth (heap t ! x)"
    and "num_buckets t' = num_buckets t"
proof -
  define a where "a = dir t ! IndexOf h t key"
  define b where "b = heap t ! a"
  define xs where "xs = erase_first key (items b)"
  note ix = table_inv_index [OF inv, of key, folded a_def]
  from inv ix(2) have ok: "bucket_ok h t a" unfolding table_inv_def by blast
  note okd = bucket_okD [OF ok, folded b_def]
  have r: "r = (key \<in> fst ` set (items b))"
    unfolding b_def a_def by (rule Remove_key_shape(1) [OF rm])
  have t'_rem: "t' = t\<lparr>heap := (heap t)[a := (heap t ! a)\<lparr>items := xs\<rparr>]\<rparr>" if r
    unfolding xs_def b_def a_def by (rule Remove_key_shape(2) [OF rm that])
  have t'_same: "t' = t" if "\<not> r"
    by (rule Remove_key_shape(3) [OF rm that])
  show "r = (Find h key t \<noteq> None)"
    unfolding r Find_map_of a_def [symmetric] b_def [symmetric]
    by (simp add: map_of_eq_None_iff)
  have len: "length xs \<le> bucket_size t"
    using okd(2) length_erase_first [of key "items b"] by (simp add: xs_def)
  have dist: "distinct (map fst xs)"
    using okd(3) by (simp add: xs_def map_fst_erase_first)
  have keys: "h (fst p) mod 2 ^ depth (heap t ! a) = c"
    if "p \<in> set xs" "\<forall>j<length (dir t). (dir t ! j = a) = (j mod 2 ^ depth (heap t ! a) = c)"
       "c < 2 ^ depth (heap t ! a)" for p c
  proof -
    from that(1) set_erase_first [of key "items b"] have p: "p \<in> set (items b)"
      by (auto simp: xs_def)
    from bucket_prefix_unique [OF inv ix(2) that(2)] p show ?thesis by (simp add: b_def)
  qed
  note upd = table_inv_update_items [OF inv ix(2) len dist keys]
  show "table_inv h t'"
  proof (cases r)
    case True
    show ?thesis unfolding t'_rem [OF True] by (rule upd)
  next
    case False
    show ?thesis unfolding t'_same [OF False] by (rule inv)
  qed
  show "Find h key t' = None"
  proof (cases r)
    case True
    note t' = t'_rem [OF True]
    show ?thesis
      unfolding t' a_def
      using Find_update_items [OF ix(2) [unfolded a_def], of xs] map_of_erase_first [OF okd(3), of key]
      by (simp add: xs_def)
  next
    case False
    with t'_same have "t' = t" by simp
    with False r show ?thesis
      by (simp add: Find_map_of a_def [symmetric] b_def [symmetric] map_of_eq_None_iff)
  qed
  show "dir t' = dir t" "global_depth t' = global_depth t" "length (heap t') = length (heap t)"
    "num_buckets t' = num_buckets t"
    using t'_rem t'_same by (cases r; simp)+
  show "\<forall>x<length (heap t). depth (heap t' ! x) = depth (heap t ! x)"
    using t'_rem t'_same ix(2) by (cases r) (auto simp: nth_list_update)
qed

subsection \<open>The insertion loop, where it returns\<close>

lemma depth_inv_update_items:
  assumes "depth_inv t" "a < length (heap t)"
  shows "depth_inv (t\<lparr>heap := (heap t)[a := (heap t ! a)\<lparr>items := xs\<rparr>]\<rparr>)"
  using assms by (auto simp: depth_inv_def nth_list_update)

lemma RedistributeBucket_depth_inv:
  assumes di: "depth_inv t" and a: "a < length (heap t)"
    and red: "RedistributeBucket h a t = Inr t'"
  shows "depth_inv t'"
proof -
  note heap' = RedistributeBucket_shape(6) [OF red]
  have "1 \<le> depth (heap t' ! x)" if x: "x < length (heap t')" for x
  proof -
    from x have "x = length (heap t) \<or> x = a \<or> (x < length (heap t) \<and> x \<noteq> a)"
      by (auto simp: heap')
    then show ?thesis
    proof (elim disjE conjE)
      assume "x = length (heap t)"
      then show ?thesis by (simp add: heap' nth_append)
    next
      assume "x = a"
      with a show ?thesis by (simp add: heap' nth_append)
    next
      assume x': "x < length (heap t)" "x \<noteq> a"
      with a di have "1 \<le> depth (heap t ! x)" by (auto simp: depth_inv_def)
      with x' show ?thesis by (simp add: heap' nth_append)
    qed
  qed
  then show ?thesis by (simp add: depth_inv_def)
qed

lemma Insert_partial:
  assumes ins: "Insert h key v t = Some r" and inv: "table_inv h t" and di: "depth_inv t"
  shows "\<exists>t'. r = Inr t' \<and> table_inv h t' \<and> depth_inv t' \<and> Find h key t' = Some v \<and>
              bucket_size t' = bucket_size t \<and> num_buckets t' = num_buckets t"
proof -
  define P :: "('a \<Rightarrow> nat) \<Rightarrow> 'a \<Rightarrow> 'b \<Rightarrow> ('a, 'b) ExtendibleHashTable
      \<Rightarrow> error + ('a, 'b) ExtendibleHashTable \<Rightarrow> bool"
    where "P = (\<lambda>h key v t r. table_inv h t \<longrightarrow> depth_inv t \<longrightarrow>
      (\<exists>t'. r = Inr t' \<and> table_inv h t' \<and> depth_inv t' \<and> Find h key t' = Some v \<and>
              bucket_size t' = bucket_size t \<and> num_buckets t' = num_buckets t))"
  have "P h key v t r"
  proof (rule Insert.raw_induct [where P = P, OF _ ins])
    fix f :: "('a \<Rightarrow> nat) \<Rightarrow> 'a \<Rightarrow> 'b \<Rightarrow> ('a, 'b) ExtendibleHashTable
        \<Rightarrow> (error + ('a, 'b) ExtendibleHashTable) option"
      and h key v t r
    assume IH: "\<And>h key v t r. f h key v t = Some r \<Longrightarrow> P h key v t r"
      and eq: "(let bucket = dir t ! IndexOf h t key;
                    (ok, b') = Bucket_Insert key v (heap t ! bucket)
                in if ok then Some (Inr (t\<lparr>heap := (heap t)[bucket := b']\<rparr>))
                   else case RedistributeBucket h bucket t of Inl e \<Rightarrow> Some (Inl e)
                        | Inr t' \<Rightarrow> f h key v t') = Some r"
    show "P h key v t r"
      unfolding P_def
    proof (intro impI)
      assume inv: "table_inv h t" and di: "depth_inv t"
      define a where "a = dir t ! IndexOf h t key"
      obtain ok b' where bi: "Bucket_Insert key v (heap t ! a) = (ok, b')"
        by (cases "Bucket_Insert key v (heap t ! a)")
      note ix = table_inv_index [OF inv, of key, folded a_def]
      show "\<exists>t'. r = Inr t' \<and> table_inv h t' \<and> depth_inv t' \<and> Find h key t' = Some v \<and>
              bucket_size t' = bucket_size t \<and> num_buckets t' = num_buckets t"
      proof (cases ok)
        case True
        with eq bi have r: "r = Inr (t\<lparr>heap := (heap t)[a := b']\<rparr>)"
          by (simp add: a_def Let_def)
        from Bucket_Insert_cases [OF bi] True
        obtain xs where b': "b' = (heap t ! a)\<lparr>items := xs\<rparr>" by auto
        have bi': "Bucket_Insert key v (heap t ! (dir t ! IndexOf h t key)) = (True, b')"
          using bi True by (simp add: a_def)
        from Bucket_Insert_inv [OF inv bi']
        have "table_inv h (t\<lparr>heap := (heap t)[a := b']\<rparr>)"
          and "Find h key (t\<lparr>heap := (heap t)[a := b']\<rparr>) = Some v"
          by (simp_all add: a_def)
        moreover have "depth_inv (t\<lparr>heap := (heap t)[a := b']\<rparr>)"
          unfolding b' by (rule depth_inv_update_items [OF di ix(2)])
        ultimately show ?thesis by (simp add: r)
      next
        case False
        from Bucket_Insert_cases [OF bi] False
        have full: "length (items (heap t ! a)) = array_size (heap t ! a)" by auto
        from inv ix(2) have ok_a: "bucket_ok h t a" and bpos: "0 < bucket_size t"
          unfolding table_inv_def by blast+
        from full bucket_okD(1) [OF ok_a] bpos have ne: "items (heap t ! a) \<noteq> []" by auto
        from RedistributeBucket_succeeds [OF ne] obtain t1
          where red: "RedistributeBucket h a t = Inr t1" by blast
        from eq bi False red have rec: "f h key v t1 = Some r"
          by (simp add: a_def Let_def)
        have inv1: "table_inv h t1" by (rule RedistributeBucket_inv [OF inv ix(2) red])
        have di1: "depth_inv t1" by (rule RedistributeBucket_depth_inv [OF di ix(2) red])
        from IH [OF rec] inv1 di1 RedistributeBucket_shape(3,4) [OF red]
        show ?thesis unfolding P_def by simp
      qed
    qed
  qed
  with inv di show ?thesis unfolding P_def by blast
qed

lemma reachable_inv:
  assumes "reachable h t"
  shows "table_inv h t \<and> depth_inv t \<and> num_buckets t = 1"
  using assms
proof (induction rule: reachable.induct)
  case (reachable_new n t)
  from table_inv_new [OF reachable_new.hyps] show ?case by simp
next
  case (reachable_Insert t key v t')
  from Insert_partial [OF reachable_Insert.hyps(2)] reachable_Insert.IH
  show ?case by auto
next
  case (reachable_Remove t key r t')
  note rk = Remove_key_inv [OF _ reachable_Remove.hyps(2)]
  from reachable_Remove.IH have inv: "table_inv h t" and di: "depth_inv t" and nb: "num_buckets t = 1"
    by simp_all
  have "depth_inv t'"
    using di rk(4-7) [OF inv] by (auto simp: depth_inv_def)
  with rk(1,8) [OF inv] nb show ?case by simp
qed

subsection \<open>Counting slots, bindings and pairs\<close>

lemma table_inv_set_dir:
  assumes inv: "table_inv h t"
  shows "set (dir t) = {..<length (heap t)}"
proof (intro set_eqI iffI)
  fix x assume "x \<in> set (dir t)"
  then obtain j where "j < length (dir t)" "dir t ! j = x" by (auto simp: in_set_conv_nth)
  with inv show "x \<in> {..<length (heap t)}" unfolding table_inv_def by auto
next
  fix x assume "x \<in> {..<length (heap t)}"
  then have x: "x < length (heap t)" by simp
  with inv have ok: "bucket_ok h t x" and len: "length (dir t) = 2 ^ global_depth t"
    unfolding table_inv_def by blast+
  note okd = bucket_okD [OF ok]
  from okd(5) obtain c where c: "c < 2 ^ depth (heap t ! x)"
    and sl: "\<forall>j<length (dir t). (dir t ! j = x) = (j mod 2 ^ depth (heap t ! x) = c)" by blast
  have pw: "(2::nat) ^ depth (heap t ! x) \<le> 2 ^ global_depth t"
    using okd(4) by (simp add: power_increasing)
  have cl: "c < length (dir t)"
    unfolding len by (rule less_le_trans [OF c pw])
  with sl c have "dir t ! c = x" by simp
  with cl show "x \<in> set (dir t)" by (auto simp: in_set_conv_nth)
qed

lemma card_mod_pow:
  fixes c d g :: nat
  assumes d: "d \<le> g" and c: "c < 2 ^ d"
  shows "card {j. j < 2 ^ g \<and> j mod 2 ^ d = c} = 2 ^ (g - d)"
proof -
  define m :: nat where "m = 2 ^ d"
  define n :: nat where "n = 2 ^ (g - d)"
  have m: "0 < m" by (simp add: m_def)
  have c': "c < m" using c by (simp add: m_def)
  have mn: "(2::nat) ^ g = n * m"
    using d by (simp add: m_def n_def flip: power_add)
  have "{j. j < n * m \<and> j mod m = c} = (\<lambda>q. q * m + c) ` {..<n}"
  proof (intro set_eqI iffI)
    fix j assume "j \<in> {j. j < n * m \<and> j mod m = c}"
    then have j: "j < n * m" "j mod m = c" by simp_all
    then have "j div m < n" using m by (simp add: less_mult_imp_div_less)
    moreover have "j = (j div m) * m + c" using j(2) by (metis div_mult_mod_eq)
    ultimately show "j \<in> (\<lambda>q. q * m + c) ` {..<n}" by blast
  next
    fix j assume "j \<in> (\<lambda>q. q * m + c) ` {..<n}"
    then obtain q where q: "q < n" "j = q * m + c" by auto
    have "q * m + c < (q + 1) * m" using c' by simp
    also have "\<dots> \<le> n * m" using q(1) by (intro mult_le_mono1) simp
    finally have "j < n * m" by (simp add: q(2))
    moreover have "j mod m = c" using c' by (simp add: q(2))
    ultimately show "j \<in> {j. j < n * m \<and> j mod m = c}" by simp
  qed
  moreover have "inj_on (\<lambda>q. q * m + c) {..<n}"
    using m by (auto simp: inj_on_def)
  ultimately have "card {j. j < n * m \<and> j mod m = c} = n"
    by (simp add: card_image)
  then show ?thesis by (simp add: mn m_def n_def)
qed

lemma table_inv_num_slots:
  assumes inv: "table_inv h t" and a: "a < length (heap t)"
  shows "num_slots t a = 2 ^ (global_depth t - depth (heap t ! a))"
proof -
  from inv a have ok: "bucket_ok h t a" and len: "length (dir t) = 2 ^ global_depth t"
    unfolding table_inv_def by blast+
  note okd = bucket_okD [OF ok]
  from okd(5) obtain c where c: "c < 2 ^ depth (heap t ! a)"
    and sl: "\<forall>j<length (dir t). (dir t ! j = a) = (j mod 2 ^ depth (heap t ! a) = c)" by blast
  have "{j. j < length (dir t) \<and> dir t ! j = a} =
        {j. j < 2 ^ global_depth t \<and> j mod 2 ^ depth (heap t ! a) = c}"
    using sl len by auto
  then show ?thesis
    unfolding num_slots_def length_filter_conv_card
    using card_mod_pow [OF okd(4) c] by simp
qed

lemma length_filter_key:
  "distinct (map fst xs) \<Longrightarrow>
   length (filter (KeyEquals key) xs) = (if key \<in> fst ` set xs then 1 else 0)"
  by (induction xs) (auto simp: KeyEquals_def)

lemma table_inv_num_bindings:
  assumes inv: "table_inv h t"
  shows "num_bindings t key = (if Find h key t = None then 0 else 1)"
proof -
  define a0 where "a0 = dir t ! IndexOf h t key"
  define f where "f = (\<lambda>a. length (filter (KeyEquals key) (items (heap t ! a))))"
  note ix = table_inv_index [OF inv, of key, folded a0_def]
  from inv ix(2) have ok: "bucket_ok h t a0" unfolding table_inv_def by blast
  have mem: "a0 \<in> set (dir t)" using ix(1) by (simp add: a0_def)
  have zero: "f a = 0" if "a \<in> set (dir t) - {a0}" for a
  proof -
    from that inv have a: "a < length (heap t)" "a \<noteq> a0"
      using table_inv_set_dir [OF inv] by auto
    have "filter (KeyEquals key) (items (heap t ! a)) = []"
    proof (rule ccontr)
      assume "filter (KeyEquals key) (items (heap t ! a)) \<noteq> []"
      then obtain p where p: "p \<in> set (items (heap t ! a))" "fst p = key"
        by (auto simp: filter_empty_conv KeyEquals_def)
      from table_inv_routed [OF inv a(1) p(1)] p(2) a(2) show False by (simp add: a0_def)
    qed
    then show ?thesis by (simp add: f_def)
  qed
  have "num_bindings t key = sum f (set (dir t))" by (simp add: num_bindings_def f_def)
  also have "\<dots> = f a0 + sum f (set (dir t) - {a0})"
    by (rule sum.remove [OF _ mem]) simp
  also have "sum f (set (dir t) - {a0}) = 0" using zero by simp
  finally have "num_bindings t key = f a0" by simp
  also have "f a0 = (if key \<in> fst ` set (items (heap t ! a0)) then 1 else 0)"
    unfolding f_def by (rule length_filter_key [OF bucket_okD(3) [OF ok]])
  also have "\<dots> = (if Find h key t = None then 0 else 1)"
    by (simp add: Find_map_of a0_def [symmetric] map_of_eq_None_iff)
  finally show ?thesis .
qed

lemma table_inv_num_items:
  assumes "table_inv h t"
  shows "num_items t = (\<Sum>a<length (heap t). length (items (heap t ! a)))"
  by (simp add: num_items_def table_inv_set_dir [OF assms])

lemma RedistributeBucket_num_items:
  assumes inv: "table_inv h t" and a: "a < length (heap t)"
    and red: "RedistributeBucket h a t = Inr t'"
  shows "num_items t' = num_items t"
proof -
  define n where "n = length (heap t)"
  define d where "d = depth (heap t ! a)"
  define f where "f = (\<lambda>x. length (items (heap t ! x)))"
  define f' where "f' = (\<lambda>x. length (items (heap t' ! x)))"
  note heap' = RedistributeBucket_shape(6) [OF red, folded d_def]
  have inv': "table_inv h t'" by (rule RedistributeBucket_inv [OF inv a red])
  have len': "length (heap t') = Suc n" by (simp add: heap' n_def)
  have a': "a \<in> {..<n}" using a by (simp add: n_def)
  have f'_new: "f' n = length (filter (\<lambda>p. bit (h (fst p)) d) (items (heap t ! a)))"
    by (simp add: f'_def heap' n_def nth_append)
  have f'_a: "f' a = length (filter (\<lambda>p. \<not> bit (h (fst p)) d) (items (heap t ! a)))"
    using a by (simp add: f'_def heap' nth_append)
  have f'_other: "f' x = f x" if "x \<in> {..<n} - {a}" for x
    using that by (simp add: f'_def f_def heap' n_def nth_append)
  have split: "f a = f' a + f' n"
    unfolding f'_a f'_new f_def
    using sum_length_filter_compl [of "\<lambda>p. bit (h (fst p)) d" "items (heap t ! a)"]
    by (simp add: comp_def)
  have "num_items t' = sum f' {..<Suc n}"
    by (simp add: table_inv_num_items [OF inv'] len' f'_def)
  also have "\<dots> = sum f' {..<n} + f' n" by simp
  also have "sum f' {..<n} = f' a + sum f' ({..<n} - {a})"
    by (rule sum.remove [OF _ a']) simp
  also have "sum f' ({..<n} - {a}) = sum f ({..<n} - {a})"
    by (rule sum.cong [OF refl f'_other])
  finally have "num_items t' = f a + sum f ({..<n} - {a})" using split by simp
  also have "\<dots> = sum f {..<n}"
    by (rule sum.remove [OF _ a', symmetric]) simp
  also have "\<dots> = num_items t"
    by (simp add: table_inv_num_items [OF inv] n_def f_def)
  finally show ?thesis .
qed

subsection \<open>Termination of the insertion loop\<close>

lemma Insert_done:
  assumes "Bucket_Insert key v (heap t ! (dir t ! IndexOf h t key)) = (True, b')"
  shows "Insert h key v t = Some (Inr (t\<lparr>heap := (heap t)[dir t ! IndexOf h t key := b']\<rparr>))"
  by (subst Insert.simps) (simp add: Let_def assms)

lemma Insert_split:
  assumes "Bucket_Insert key v (heap t ! (dir t ! IndexOf h t key)) = (False, b')"
    and "RedistributeBucket h (dir t ! IndexOf h t key) t = Inr t1"
  shows "Insert h key v t = Insert h key v t1"
  by (subst Insert.simps) (simp add: Let_def assms)

lemma bit_mod_agree:
  fixes x y :: nat
  assumes "x mod 2 ^ d = y mod 2 ^ d" "bit x p \<noteq> bit y p"
  shows "d \<le> p"
proof (rule ccontr)
  assume "\<not> d \<le> p"
  then have p: "p < d" by simp
  have "bit x p = bit (take_bit d x) p" using p by (simp add: bit_take_bit_iff)
  also have "\<dots> = bit (take_bit d y) p" using assms(1) by (simp add: take_bit_eq_mod)
  also have "\<dots> = bit y p" using p by (simp add: bit_take_bit_iff)
  finally show False using assms(2) by simp
qed

text \<open>Where the key is routed after a split of its bucket, and what it finds there.\<close>

lemma RedistributeBucket_target:
  assumes inv: "table_inv h t"
    and red: "RedistributeBucket h (dir t ! IndexOf h t key) t = Inr t'"
  defines "a \<equiv> dir t ! IndexOf h t key"
  defines "a' \<equiv> dir t' ! IndexOf h t' key"
  shows "items (heap t' ! a') =
           filter (\<lambda>p. bit (h (fst p)) (depth (heap t ! a)) = bit (h key) (depth (heap t ! a)))
             (items (heap t ! a))"
    and "depth (heap t' ! a') = Suc (depth (heap t ! a))"
    and "array_size (heap t' ! a') = bucket_size t"
proof -
  define d where "d = depth (heap t ! a)"
  define c0 where "c0 = h (fst (hd (items (heap t ! a)))) mod 2 ^ d"
  define g where "g = global_depth t"
  define g' where "g' = global_depth t'"
  note ix = table_inv_index [OF inv, of key, folded a_def]
  from inv ix(2) have ok: "bucket_ok h t a" and len: "length (dir t) = 2 ^ g"
    unfolding table_inv_def g_def by blast+
  note okd = bucket_okD [OF ok]
  have ne: "items (heap t ! a) \<noteq> []"
    by (rule RedistributeBucket_shape(1) [OF red [folded a_def]])
  note heap' = RedistributeBucket_shape(6) [OF red [folded a_def], folded d_def]
  note dirfacts = RedistributeBucket_dir [OF inv ix(2) red [folded a_def] d_def c0_def,
      folded g_def g'_def]
  note pre = bucket_prefix [OF ok ne, folded d_def, folded c0_def]
  have key_pre: "h key mod 2 ^ d = c0"
    using table_inv_prefix [OF inv, of key c0] pre(2) by (simp add: a_def d_def)
  have j: "IndexOf h t' key < length (dir t')"
    by (simp add: IndexOf_mod dirfacts(1) g'_def)
  have m1: "IndexOf h t' key mod 2 ^ Suc d = h key mod 2 ^ Suc d"
    unfolding IndexOf_mod g'_def [symmetric] by (rule mod_mod_pow [OF dirfacts(2)])
  have m2: "IndexOf h t' key mod 2 ^ g = IndexOf h t key"
    unfolding IndexOf_mod g'_def [symmetric] g_def [symmetric] by (rule mod_mod_pow [OF dirfacts(3)])
  have a'_eq: "a' = (if bit (h key) d then length (heap t) else a)"
  proof -
    have "a' = (if IndexOf h t' key mod 2 ^ Suc d = c0 + 2 ^ d then length (heap t)
                else dir t ! (IndexOf h t' key mod 2 ^ g))"
      unfolding a'_def using dirfacts(4) j by blast
    also have "\<dots> = (if h key mod 2 ^ Suc d = c0 + 2 ^ d then length (heap t) else a)"
      unfolding m1 m2 a_def ..
    also have "(h key mod 2 ^ Suc d = c0 + 2 ^ d) = bit (h key) d"
      unfolding mod_Suc_bit [of "h key" d] key_pre by simp
    finally show ?thesis .
  qed
  show "items (heap t' ! a') =
           filter (\<lambda>p. bit (h (fst p)) (depth (heap t ! a)) = bit (h key) (depth (heap t ! a)))
             (items (heap t ! a))"
    unfolding d_def [symmetric] a'_eq using ix(2)
    by (cases "bit (h key) d") (simp_all add: heap' nth_append)
  show "depth (heap t' ! a') = Suc (depth (heap t ! a))"
    unfolding d_def [symmetric] a'_eq using ix(2)
    by (cases "bit (h key) d") (simp_all add: heap' nth_append)
  show "array_size (heap t' ! a') = bucket_size t"
    unfolding a'_eq using ix(2) okd(1)
    by (cases "bit (h key) d") (simp_all add: heap' nth_append)
qed

lemma Insert_loop_terminates:
  assumes inv: "table_inv h t"
    and reason: "key \<in> fst ` set (items (heap t ! (dir t ! IndexOf h t key))) \<or>
        length (items (heap t ! (dir t ! IndexOf h t key))) \<noteq> bucket_size t \<or>
        (\<exists>k' \<in> fst ` set (items (heap t ! (dir t ! IndexOf h t key))).
           \<exists>p. bit (h k') p \<noteq> bit (h key) p \<and>
               p < depth (heap t ! (dir t ! IndexOf h t key)) + n)"
  shows "\<exists>t'. Insert h key v t = Some (Inr t')"
  using inv reason
proof (induction n arbitrary: t)
  case 0
  define a where "a = dir t ! IndexOf h t key"
  note ix = table_inv_index [OF "0.prems"(1), of key, folded a_def]
  from "0.prems"(1) ix(2) have ok: "bucket_ok h t a" unfolding table_inv_def by blast
  note okd = bucket_okD [OF ok]
  obtain okb b' where bi: "Bucket_Insert key v (heap t ! a) = (okb, b')"
    by (cases "Bucket_Insert key v (heap t ! a)")
  have no_third: "\<not> (\<exists>k' \<in> fst ` set (items (heap t ! a)).
           \<exists>p. bit (h k') p \<noteq> bit (h key) p \<and> p < depth (heap t ! a) + 0)"
  proof
    assume "\<exists>k' \<in> fst ` set (items (heap t ! a)).
           \<exists>p. bit (h k') p \<noteq> bit (h key) p \<and> p < depth (heap t ! a) + 0"
    then obtain q p where q: "q \<in> set (items (heap t ! a))"
      and p: "bit (h (fst q)) p \<noteq> bit (h key) p" "p < depth (heap t ! a)" by auto
    from okd(5) obtain c
      where sl: "\<forall>j<length (dir t). (dir t ! j = a) = (j mod 2 ^ depth (heap t ! a) = c)"
        and ks: "\<forall>p\<in>set (items (heap t ! a)). h (fst p) mod 2 ^ depth (heap t ! a) = c" by blast
    from table_inv_prefix [OF "0.prems"(1), of key c] sl
    have "h key mod 2 ^ depth (heap t ! a) = c" by (simp add: a_def)
    with ks q have "h (fst q) mod 2 ^ depth (heap t ! a) = h key mod 2 ^ depth (heap t ! a)"
      by simp
    from bit_mod_agree [OF this p(1)] p(2) show False by simp
  qed
  with "0.prems"(2) have "key \<in> fst ` set (items (heap t ! a)) \<or>
        length (items (heap t ! a)) \<noteq> bucket_size t"
    unfolding a_def [symmetric] by blast
  with Bucket_Insert_cases [OF bi] okd(1) have "okb" by auto
  with bi Insert_done [of key v t h b'] show ?case by (auto simp: a_def)
next
  case (Suc n)
  define a where "a = dir t ! IndexOf h t key"
  define d where "d = depth (heap t ! a)"
  note inv = Suc.prems(1)
  note ix = table_inv_index [OF inv, of key, folded a_def]
  from inv ix(2) have ok: "bucket_ok h t a" and bpos: "0 < bucket_size t"
    unfolding table_inv_def by blast+
  note okd = bucket_okD [OF ok]
  obtain okb b' where bi: "Bucket_Insert key v (heap t ! a) = (okb, b')"
    by (cases "Bucket_Insert key v (heap t ! a)")
  show ?case
  proof (cases okb)
    case True
    with bi Insert_done [of key v t h b'] show ?thesis by (auto simp: a_def)
  next
    case False
    with Bucket_Insert_cases [OF bi] okd(1)
    have absent: "key \<notin> fst ` set (items (heap t ! a))"
      and full: "length (items (heap t ! a)) = bucket_size t" by auto
    from full bpos have ne: "items (heap t ! a) \<noteq> []" by auto
    from RedistributeBucket_succeeds [OF ne] obtain t1
      where red: "RedistributeBucket h a t = Inr t1" by blast
    have step: "Insert h key v t = Insert h key v t1"
      using Insert_split [of key v t h b' t1] bi False red by (simp add: a_def)
    have inv1: "table_inv h t1" by (rule RedistributeBucket_inv [OF inv ix(2) red])
    note tgt = RedistributeBucket_target [OF inv red [unfolded a_def], folded a_def, folded d_def]
    define a1 where "a1 = dir t1 ! IndexOf h t1 key"
    have bs1: "bucket_size t1 = bucket_size t" by (rule RedistributeBucket_shape(3) [OF red])
    from Suc.prems(2) absent full obtain q p where q: "q \<in> set (items (heap t ! a))"
      and p: "bit (h (fst q)) p \<noteq> bit (h key) p" "p < d + Suc n"
      unfolding a_def [symmetric] d_def [symmetric] by auto
    from okd(5) obtain c
      where sl: "\<forall>j<length (dir t). (dir t ! j = a) = (j mod 2 ^ depth (heap t ! a) = c)"
        and ks: "\<forall>p\<in>set (items (heap t ! a)). h (fst p) mod 2 ^ depth (heap t ! a) = c" by blast
    from table_inv_prefix [OF inv, of key c] sl
    have "h key mod 2 ^ d = c" by (simp add: a_def d_def)
    with ks q have "h (fst q) mod 2 ^ d = h key mod 2 ^ d" by (simp add: d_def)
    from bit_mod_agree [OF this p(1)] have dp: "d \<le> p" .
    have "key \<in> fst ` set (items (heap t1 ! a1)) \<or>
        length (items (heap t1 ! a1)) \<noteq> bucket_size t1 \<or>
        (\<exists>k' \<in> fst ` set (items (heap t1 ! a1)).
           \<exists>p. bit (h k') p \<noteq> bit (h key) p \<and> p < depth (heap t1 ! a1) + n)"
    proof (cases "bit (h (fst q)) d = bit (h key) d")
      case True
      with p(1) have "p \<noteq> d" by auto
      with dp p(2) have "p < Suc d + n" by simp
      moreover from True q have "q \<in> set (items (heap t1 ! a1))"
        unfolding a1_def tgt(1) by simp
      ultimately show ?thesis
        using p(1) tgt(2) unfolding a1_def by (intro disjI2) force
    next
      case False
      with q have "length (items (heap t1 ! a1)) < length (items (heap t ! a))"
        unfolding a1_def tgt(1) by (intro length_filter_less [of q]) simp_all
      with full bs1 show ?thesis by simp
    qed
    from Suc.IH [OF inv1 this [unfolded a1_def]] step show ?thesis by simp
  qed
qed

subsection \<open>The small table\<close>

lemma ex_new_constructed: "ExtendibleHashTable_new 1 = Inr ex_new"
  by (simp add: ExtendibleHashTable_new_def ex_new_def Bucket_new_def default_depth_def)

lemma ex_Insert_one: "Insert id 0 10 ex_new = Some (Inr ex_one)"
  by (subst Insert.simps)
     (simp add: ex_new_def ex_one_def Let_def IndexOf_def Bucket_Insert_def IsFull_def)

lemma ex_split_one: "RedistributeBucket id 0 ex_one = Inr ex_split"
  by (simp add: RedistributeBucket_def ex_one_def ex_split_def Let_def redirect.simps)

lemma ex_Insert_two: "Insert id 1 11 ex_one = Some (Inr ex_two)"
proof -
  have "Bucket_Insert 1 11 (heap ex_one ! (dir ex_one ! IndexOf id ex_one 1)) =
          (False, heap ex_one ! (dir ex_one ! IndexOf id ex_one 1))"
    by (simp add: ex_one_def IndexOf_def Bucket_Insert_def IsFull_def KeyEquals_def)
  moreover have "dir ex_one ! IndexOf id ex_one 1 = 0"
    by (simp add: ex_one_def IndexOf_def)
  ultimately have "Insert id 1 11 ex_one = Insert id 1 11 ex_split"
    using Insert_split [of 1 11 ex_one id _ ex_split] ex_split_one by simp
  also have "\<dots> = Some (Inr ex_two)"
    by (subst Insert.simps)
       (simp add: ex_split_def ex_two_def Let_def IndexOf_def Bucket_Insert_def IsFull_def)
  finally show ?thesis .
qed

lemma ex_reachable:
  "reachable id ex_new" "reachable id ex_one" "reachable id ex_two"
proof -
  show r0: "reachable id ex_new" by (rule reachable_new [OF ex_new_constructed])
  show r1: "reachable id ex_one" by (rule reachable_Insert [OF r0 ex_Insert_one])
  show "reachable id ex_two" by (rule reachable_Insert [OF r1 ex_Insert_two])
qed

subsection \<open>The claims about the hash table\<close>

lemma Insert_returns:
  assumes inv: "table_inv h t"
    and "card {k \<in> table_keys t \<union> {key}. h k = h key} \<le> bucket_size t"
  shows "\<exists>t'. Insert h key v t = Some (Inr t')"
proof -
  define a where "a = dir t ! IndexOf h t key"
  define ks where "ks = fst ` set (items (heap t ! a))"
  note ix = table_inv_index [OF inv, of key, folded a_def]
  from inv ix(2) have ok: "bucket_ok h t a" unfolding table_inv_def by blast
  note okd = bucket_okD [OF ok]
  have fin: "finite (table_keys t \<union> {key})" by (simp add: table_keys_def)
  have "a \<in> set (dir t)" using ix(1) by (simp add: a_def)
  then have sub: "ks \<subseteq> table_keys t"
    unfolding ks_def table_keys_def by blast
  have card_ks: "card ks = length (items (heap t ! a))"
    using distinct_card [OF okd(3)] by (simp add: ks_def)
  show ?thesis
  proof (cases "key \<in> ks \<or> length (items (heap t ! a)) \<noteq> bucket_size t")
    case True
    then show ?thesis
      using Insert_loop_terminates [OF inv, of key 0 v] by (auto simp: a_def ks_def)
  next
    case False
    then have absent: "key \<notin> ks" and full: "length (items (heap t ! a)) = bucket_size t"
      by simp_all
    have "\<exists>k' \<in> ks. h k' \<noteq> h key"
    proof (rule ccontr)
      assume "\<not> (\<exists>k' \<in> ks. h k' \<noteq> h key)"
      then have "insert key ks \<subseteq> {k \<in> table_keys t \<union> {key}. h k = h key}"
        using sub by auto
      then have "card (insert key ks) \<le> card {k \<in> table_keys t \<union> {key}. h k = h key}"
        using fin by (intro card_mono) simp_all
      moreover have "card (insert key ks) = Suc (bucket_size t)"
        using absent card_ks full by (simp add: ks_def)
      ultimately show False using assms(2) by simp
    qed
    then obtain k' where k': "k' \<in> ks" "h k' \<noteq> h key" by blast
    then obtain p where p: "bit (h k') p \<noteq> bit (h key) p"
      by (auto simp: bit_eq_iff)
    have "p < depth (heap t ! a) + Suc p" by simp
    with k'(1) p show ?thesis
      using Insert_loop_terminates [OF inv, of key "Suc p" v]
      unfolding a_def [symmetric] ks_def [symmetric] by blast
  qed
qed

text \<open>
  Claim C2. In every table reached by the constructor, insertions and removals, once
  \<open>Insert key v\<close> has returned it has returned normally, and \<open>Find key\<close> then yields
  \<open>v\<close>; this covers insertions that split buckets and double the directory. \<open>Insert\<close>
  does return when at most \<open>bucket_size\<close> of the stored keys together with \<open>key\<close> have
  the hash of \<open>key\<close>.
\<close>

theorem Insert_then_Find:
  assumes "reachable h t"
  shows "(\<forall>r. Insert h key v t = Some r \<longrightarrow> (\<exists>t'. r = Inr t' \<and> Find h key t' = Some v)) \<and>
         (card {k \<in> table_keys t \<union> {key}. h k = h key} \<le> bucket_size t \<longrightarrow>
            (\<exists>t'. Insert h key v t = Some (Inr t') \<and> Find h key t' = Some v))"
proof -
  from reachable_inv [OF assms] have inv: "table_inv h t" and di: "depth_inv t" by simp_all
  have A: "\<exists>t'. r = Inr t' \<and> Find h key t' = Some v" if "Insert h key v t = Some r" for r
    using Insert_partial [OF that inv di] by blast
  have B: "\<exists>t'. Insert h key v t = Some (Inr t') \<and> Find h key t' = Some v"
    if "card {k \<in> table_keys t \<union> {key}. h k = h key} \<le> bucket_size t"
  proof -
    from Insert_returns [OF inv that] obtain t' where t': "Insert h key v t = Some (Inr t')"
      by blast
    from A [OF this] t' show ?thesis by simp
  qed
  from A B show ?thesis by blast
qed

theorem Insert_then_Find_witness:
  "reachable id ex_one \<and> Insert id 1 11 ex_one = Some (Inr ex_two) \<and>
   card {k \<in> table_keys ex_one \<union> {1}. id k = id (1::nat)} \<le> bucket_size ex_one \<and>
   Find id 1 ex_two = Some 11"
proof -
  have "{k \<in> table_keys ex_one \<union> {1}. id k = id (1::nat)} = {1}"
    by (auto simp: table_keys_def ex_one_def)
  then have c: "card {k \<in> table_keys ex_one \<union> {1}. id k = id (1::nat)} \<le> bucket_size ex_one"
    by (simp add: ex_one_def)
  from Insert_then_Find [OF ex_reachable(2), of 1 11] ex_Insert_two
  have "Find id 1 ex_two = Some 11" by auto
  with ex_reachable(2) ex_Insert_two c show ?thesis by blast
qed

text \<open>
  Claim C4. In every reachable table, the bucket of every directory slot has a local depth
  of at most the global depth, and exactly \<open>2 ^ (global_depth - local_depth)\<close> slots refer
  to it. A split of a bucket of the directory gives the old bucket and the new bucket (at
  the next store address, now in the directory) the depth \<open>d + 1\<close>, and the number of
  stored pairs does not decrease.
\<close>

theorem directory_invariant:
  assumes "reachable h t"
  shows "(\<forall>i<length (dir t).
            GetLocalDepth t i \<le> GetGlobalDepth t \<and>
            num_slots t (dir t ! i) = 2 ^ (GetGlobalDepth t - GetLocalDepth t i)) \<and>
         (\<forall>a t'. a \<in> set (dir t) \<and> RedistributeBucket h a t = Inr t' \<longrightarrow>
            depth (heap t' ! a) = depth (heap t ! a) + 1 \<and>
            length (heap t) \<in> set (dir t') \<and> length (heap t) \<notin> set (dir t) \<and>
            depth (heap t' ! length (heap t)) = depth (heap t ! a) + 1 \<and>
            num_items t \<le> num_items t')"
proof (intro conjI allI impI)
  from reachable_inv [OF assms] have inv: "table_inv h t" by simp
  {
    fix i assume i: "i < length (dir t)"
    with inv have a: "dir t ! i < length (heap t)" unfolding table_inv_def by blast
    with inv have ok: "bucket_ok h t (dir t ! i)" unfolding table_inv_def by blast
    show "GetLocalDepth t i \<le> GetGlobalDepth t"
      using bucket_okD(4) [OF ok] by (simp add: GetLocalDepth_def GetGlobalDepth_def)
    show "num_slots t (dir t ! i) = 2 ^ (GetGlobalDepth t - GetLocalDepth t i)"
      using table_inv_num_slots [OF inv a] by (simp add: GetLocalDepth_def GetGlobalDepth_def)
  }
  {
    fix a t' assume "a \<in> set (dir t) \<and> RedistributeBucket h a t = Inr t'"
    then have mem: "a \<in> set (dir t)" and red: "RedistributeBucket h a t = Inr t'" by simp_all
    from mem have a: "a < length (heap t)" using table_inv_set_dir [OF inv] by simp
    note heap' = RedistributeBucket_shape(6) [OF red]
    have inv': "table_inv h t'" by (rule RedistributeBucket_inv [OF inv a red])
    show "depth (heap t' ! a) = depth (heap t ! a) + 1"
      using a by (simp add: heap' nth_append)
    show "length (heap t) \<in> set (dir t')"
      using table_inv_set_dir [OF inv'] by (simp add: heap')
    show "length (heap t) \<notin> set (dir t)"
      using table_inv_set_dir [OF inv] by simp
    show "depth (heap t' ! length (heap t)) = depth (heap t ! a) + 1"
      by (simp add: heap' nth_append)
    show "num_items t \<le> num_items t'"
      using RedistributeBucket_num_items [OF inv a red] by simp
  }
qed

theorem directory_invariant_witness:
  "reachable id ex_one \<and> 0 < length (dir ex_one) \<and>
   GetLocalDepth ex_one 0 \<le> GetGlobalDepth ex_one \<and>
   num_slots ex_one (dir ex_one ! 0) = 2 ^ (GetGlobalDepth ex_one - GetLocalDepth ex_one 0) \<and>
   0 \<in> set (dir ex_one) \<and> RedistributeBucket id 0 ex_one = Inr ex_split \<and>
   depth (heap ex_split ! 0) = depth (heap ex_one ! 0) + 1 \<and>
   depth (heap ex_split ! length (heap ex_one)) = depth (heap ex_one ! 0) + 1 \<and>
   num_items ex_one \<le> num_items ex_split"
proof -
  have len: "0 < length (dir ex_one)" and mem: "0 \<in> set (dir ex_one)"
    by (simp_all add: ex_one_def)
  from directory_invariant [OF ex_reachable(2)] len mem ex_split_one
  have "GetLocalDepth ex_one 0 \<le> GetGlobalDepth ex_one \<and>
   num_slots ex_one (dir ex_one ! 0) = 2 ^ (GetGlobalDepth ex_one - GetLocalDepth ex_one 0) \<and>
   depth (heap ex_split ! 0) = depth (heap ex_one ! 0) + 1 \<and>
   depth (heap ex_split ! length (heap ex_one)) = depth (heap ex_one ! 0) + 1 \<and>
   num_items ex_one \<le> num_items ex_split"
    by blast
  with ex_reachable(2) len mem ex_split_one show ?thesis by blast
qed

text \<open>
  Claim C5, evaluated on the code: after inserting the keys 0 and 1 into a new table with
  buckets of size 1 the directory refers to two distinct buckets, the second insertion has
  performed one split, and \<open>GetNumBuckets\<close> still returns 1: no operation updates
  \<open>num_buckets\<close>.
\<close>

theorem GetNumBuckets_not_updated:
  "ExtendibleHashTable_new 1 = Inr ex_new \<and> Insert id 0 10 ex_new = Some (Inr ex_one) \<and>
   Insert id 1 11 ex_one = Some (Inr ex_two) \<and>
   GetNumBuckets ex_one = 1 \<and> GetNumBuckets ex_two = 1 \<and>
   card (set (dir ex_one)) = 1 \<and> card (set (dir ex_two)) = 2"
  using ex_new_constructed ex_Insert_one ex_Insert_two
  by (simp add: GetNumBuckets_def ex_one_def ex_two_def)

text \<open>
  Claim C6. After \<open>Insert key v1\<close> on a reachable table, \<open>Insert key v2\<close> returns, \<open>Find key\<close>
  then yields \<open>v2\<close>, the table holds exactly one pair with that key, and the number of
  stored pairs is the same as before the second insertion.
\<close>

theorem Insert_overwrites:
  assumes "reachable h t" and "Insert h key v1 t = Some (Inr t1)"
  shows "\<exists>t2. Insert h key v2 t1 = Some (Inr t2) \<and> Find h key t2 = Some v2 \<and>
              num_bindings t2 key = 1 \<and> num_items t2 = num_items t1"
proof -
  from reachable_inv [OF assms(1)] have "table_inv h t" "depth_inv t" by simp_all
  from Insert_partial [OF assms(2) this]
  have inv1: "table_inv h t1" and found: "Find h key t1 = Some v1" by simp_all
  define a where "a = dir t1 ! IndexOf h t1 key"
  define b' where "b' = (heap t1 ! a)\<lparr>items := assign_first key v2 (items (heap t1 ! a))\<rparr>"
  define t2 where "t2 = t1\<lparr>heap := (heap t1)[a := b']\<rparr>"
  note ix = table_inv_index [OF inv1, of key, folded a_def]
  from found have present: "key \<in> fst ` set (items (heap t1 ! a))"
    unfolding Find_map_of a_def [symmetric] by (metis map_of_eq_None_iff option.distinct(1))
  obtain okb b'' where bi: "Bucket_Insert key v2 (heap t1 ! a) = (okb, b'')"
    by (cases "Bucket_Insert key v2 (heap t1 ! a)")
  from Bucket_Insert_cases [OF bi] present
  have bi': "Bucket_Insert key v2 (heap t1 ! (dir t1 ! IndexOf h t1 key)) = (True, b')"
    using bi by (auto simp: b'_def a_def)
  have ins: "Insert h key v2 t1 = Some (Inr t2)"
    unfolding t2_def a_def by (rule Insert_done [OF bi'])
  from Bucket_Insert_inv [OF inv1 bi']
  have inv2: "table_inv h t2" and found2: "Find h key t2 = Some v2"
    by (simp_all add: t2_def a_def)
  have "num_bindings t2 key = 1"
    using table_inv_num_bindings [OF inv2, of key] found2 by simp
  moreover have "num_items t2 = num_items t1"
  proof -
    have "length (items (heap t2 ! x)) = length (items (heap t1 ! x))" if "x < length (heap t1)" for x
    proof -
      have "length (assign_first key v2 (items (heap t1 ! a))) = length (items (heap t1 ! a))"
        using arg_cong [OF map_fst_assign_first, of length key v2 "items (heap t1 ! a)"] by simp
      with that ix(2) show ?thesis
        by (auto simp: t2_def b'_def nth_list_update)
    qed
    then show ?thesis
      unfolding table_inv_num_items [OF inv2] table_inv_num_items [OF inv1]
      by (simp add: t2_def)
  qed
  ultimately show ?thesis using ins found2 by blast
qed

theorem Insert_overwrites_witness:
  "reachable id ex_new \<and> Insert id 0 10 ex_new = Some (Inr ex_one) \<and>
   (\<exists>t2. Insert id 0 12 ex_one = Some (Inr t2) \<and> Find id 0 t2 = Some 12 \<and>
         num_bindings t2 0 = 1 \<and> num_items t2 = num_items ex_one)"
  using Insert_overwrites [OF ex_reachable(1) ex_Insert_one, of 12] ex_reachable(1) ex_Insert_one
  by simp

text \<open>
  Claim C7. On a reachable table \<open>Remove key\<close> returns true exactly when the table held a
  pair with that key (that is, when \<open>Find key\<close> succeeded before); afterwards \<open>Find key\<close>
  fails and no pair with the key is left. In particular, when the table is the result of
  \<open>Insert key v\<close>, \<open>Remove key\<close> returns true and a following \<open>Find key\<close> fails.
\<close>

theorem Remove_semantics:
  assumes "reachable h t" and "Remove_key h key t = (r, t')"
  shows "(r \<longleftrightarrow> 0 < num_bindings t key) \<and> (r \<longleftrightarrow> Find h key t \<noteq> None) \<and>
         Find h key t' = None \<and> num_bindings t' key = 0 \<and>
         (\<forall>t0 v. reachable h t0 \<and> Insert h key v t0 = Some (Inr t) \<longrightarrow> r)"
proof -
  from reachable_inv [OF assms(1)] have inv: "table_inv h t" by simp
  note rk = Remove_key_inv [OF inv assms(2)]
  have r: "r \<longleftrightarrow> Find h key t \<noteq> None" by (rule rk(3))
  have "r \<longleftrightarrow> 0 < num_bindings t key"
    unfolding r table_inv_num_bindings [OF inv, of key] by simp
  moreover have "num_bindings t' key = 0"
    using table_inv_num_bindings [OF rk(1), of key] rk(2) by simp
  moreover have "r" if "reachable h t0 \<and> Insert h key v t0 = Some (Inr t)" for t0 v
  proof -
    from that reachable_inv [of h t0] have "table_inv h t0" "depth_inv t0"
      and "Insert h key v t0 = Some (Inr t)" by simp_all
    from Insert_partial [OF this(3) this(1,2)] have "Find h key t = Some v" by simp
    with r show ?thesis by simp
  qed
  ultimately show ?thesis using r rk(2) by blast
qed

theorem Remove_semantics_witness:
  "reachable id ex_one \<and> Remove_key id 0 ex_one = (True, ex_new) \<and>
   0 < num_bindings ex_one 0 \<and> Find id 0 ex_one \<noteq> None \<and>
   Find id 0 ex_new = None \<and> num_bindings ex_new 0 = 0 \<and>
   reachable id ex_new \<and> Insert id 0 10 ex_new = Some (Inr ex_one)"
proof -
  have rm: "Remove_key id 0 ex_one = (True, ex_new)"
    by (simp add: Remove_key_def Bucket_Remove_def Let_def IndexOf_def KeyEquals_def
        ex_one_def ex_new_def)
  from Remove_semantics [OF ex_reachable(2) rm] ex_reachable(1,2) rm ex_Insert_one
  show ?thesis by simp
qed



text \<open>
  Claim C9 fails at construction: the initial bucket has local depth 0.
\<close>

theorem initial_local_depth_is_zero:
  "ExtendibleHashTable_new 1 = Inr ex_new \<and> \<not> 1 \<le> GetLocalDepth ex_new 0"
  using ex_new_constructed by (simp add: GetLocalDepth_def ex_new_def)

text \<open>
  Claim C9, amended. In every reachable table the bucket of every directory slot has a
  local depth of at least 1 as soon as the global depth is at least 1; while the global
  depth is 0 (until the first split) the local depth is 0.
\<close>

theorem local_depth_lower_bound:
  assumes "reachable h t"
  shows "(1 \<le> GetGlobalDepth t \<longrightarrow> (\<forall>i<length (dir t). 1 \<le> GetLocalDepth t i)) \<and>
         (GetGlobalDepth t = 0 \<longrightarrow> (\<forall>i<length (dir t). GetLocalDepth t i = 0))"
proof (intro conjI impI allI)
  from reachable_inv [OF assms] have inv: "table_inv h t" and di: "depth_inv t" by simp_all
  {
    fix i assume g: "1 \<le> GetGlobalDepth t" and i: "i < length (dir t)"
    from i inv have "dir t ! i < length (heap t)" unfolding table_inv_def by blast
    with di g show "1 \<le> GetLocalDepth t i"
      by (auto simp: depth_inv_def GetGlobalDepth_def GetLocalDepth_def)
  }
  {
    fix i assume g: "GetGlobalDepth t = 0" and i: "i < length (dir t)"
    from i inv have a: "dir t ! i < length (heap t)" unfolding table_inv_def by blast
    with inv have "bucket_ok h t (dir t ! i)" unfolding table_inv_def by blast
    from bucket_okD(4) [OF this] g show "GetLocalDepth t i = 0"
      by (simp add: GetGlobalDepth_def GetLocalDepth_def)
  }
qed

theorem local_depth_lower_bound_witness:
  "reachable id ex_two \<and> 1 \<le> GetGlobalDepth ex_two \<and> 1 < length (dir ex_two) \<and>
   1 \<le> GetLocalDepth ex_two 1 \<and>
   reachable id ex_new \<and> GetGlobalDepth ex_new = 0 \<and> 0 < length (dir ex_new) \<and>
   GetLocalDepth ex_new 0 = 0"
proof -
  have g2: "1 \<le> GetGlobalDepth ex_two" and l2: "1 < length (dir ex_two)"
    by (simp_all add: GetGlobalDepth_def ex_two_def)
  have g0: "GetGlobalDepth ex_new = 0" and l0: "0 < length (dir ex_new)"
    by (simp_all add: GetGlobalDepth_def ex_new_def)
  from local_depth_lower_bound [OF ex_reachable(3)] g2 l2
  have "1 \<le> GetLocalDepth ex_two 1" by blast
  moreover from local_depth_lower_bound [OF ex_reachable(1)] g0 l0
  have "GetLocalDepth ex_new 0 = 0" by blast
  ultimately show ?thesis using ex_reachable(1,3) g2 l2 g0 l0 by simp
qed


end
